theory Spec2Isabelle
  imports Main "HOL-Library.Sublist"
begin

section \<open>Values read from the transaction log\<close>

text \<open>
  The log is newline-delimited JSON; every line is parsed by \<^verbatim>\<open>JSON.parse\<close>. The
  arguments of an extrinsic and the call descriptors nested in them are typed \<^verbatim>\<open>any\<close>
  in the source, so they are modelled as JavaScript values: the JSON values, the value
  \<^verbatim>\<open>undefined\<close> that a read of a missing property yields, and the members a value
  inherits from its prototype (\<open>JNative\<close>, named by their path). Numbers are integers
  here; an object is the list of its own properties.
\<close>

datatype jsval =
    JUndefined
  | JNull
  | JBool bool
  | JNum int
  | JStr string
  | JArr "jsval list"
  | JObj "(string \<times> jsval) list"
  | JNative string

text \<open>
  The errors a run can end with: a JavaScript \<^verbatim>\<open>TypeError\<close> (a property read on
  \<^verbatim>\<open>undefined\<close> or \<^verbatim>\<open>null\<close>, \<^verbatim>\<open>map\<close> on something that is no array), an error
  thrown inside the network client (with its message), a rejected submission, and the
  four errors the source itself throws with \<^verbatim>\<open>new Error\<close>.
\<close>

datatype error =
    TypeError
  | ClientError string
  | Rejected
  | MethodMissing string string
  | MissingBlock nat int
  | NotSudoSigner string string
  | FailedSubmitting error

text \<open>
  \<^verbatim>\<open>v.k\<close>: a property read. It throws on \<^verbatim>\<open>undefined\<close> and \<^verbatim>\<open>null\<close>; on an object
  it yields the own property or \<^verbatim>\<open>undefined\<close>. Of the inherited members only those with
  a name the program reads are listed: \<^verbatim>\<open>keys\<close> and \<^verbatim>\<open>length\<close> of an array,
  \<^verbatim>\<open>length\<close> of a string, \<^verbatim>\<open>call\<close> of a function.
\<close>

fun read_prop :: "jsval \<Rightarrow> string \<Rightarrow> error + jsval" where
  "read_prop JUndefined k = Inl TypeError"
| "read_prop JNull k = Inl TypeError"
| "read_prop (JObj kvs) k = Inr (case map_of kvs k of None \<Rightarrow> JUndefined | Some v \<Rightarrow> v)"
| "read_prop (JArr xs) k =
     Inr (if k = ''keys'' then JNative ''Array.prototype.keys''
          else if k = ''length'' then JNum (int (length xs))
          else JUndefined)"
| "read_prop (JStr s) k = Inr (if k = ''length'' then JNum (int (length s)) else JUndefined)"
| "read_prop (JNative f) k =
     Inr (if k = ''call'' then JNative ''Function.prototype.call'' else JUndefined)"
| "read_prop (JBool b) k = Inr JUndefined"
| "read_prop (JNum n) k = Inr JUndefined"

text \<open>\<^verbatim>\<open>xs[i]\<close> on an array: \<^verbatim>\<open>undefined\<close> out of range.\<close>

definition at_index :: "jsval list \<Rightarrow> nat \<Rightarrow> jsval" where
  "at_index xs i = (if i < length xs then xs ! i else JUndefined)"

text \<open>\<^verbatim>\<open>v.map(f)\<close> needs an array; on anything else it is a \<^verbatim>\<open>TypeError\<close>.\<close>

fun as_array :: "jsval \<Rightarrow> error + jsval list" where
  "as_array (JArr xs) = Inr xs"
| "as_array v = Inl TypeError"

text \<open>The truth value JavaScript gives a value in a condition.\<close>

fun truthy :: "jsval \<Rightarrow> bool" where
  "truthy JUndefined = False"
| "truthy JNull = False"
| "truthy (JBool b) = b"
| "truthy (JNum n) = (n \<noteq> 0)"
| "truthy (JStr s) = (s \<noteq> [])"
| "truthy (JArr xs) = True"
| "truthy (JObj kvs) = True"
| "truthy (JNative f) = True"

section \<open>The network client\<close>

text \<open>
  The client (\<^verbatim>\<open>@polkadot/api\<close>) is outside the repository, so it is a parameter. The
  type \<open>'c\<close> is the client's call object. An argument handed to a call constructor is a
  value of the log, a call built before, or a list of such calls.
\<close>

datatype 'c arg = Val jsval | Nested 'c | NestedList "'c list"

text \<open>
  \<^item> \<open>findMetaCall\<close>: \<^verbatim>\<open>api.registry.findMetaCall(hexToU8a(callIndex))\<close>, the
    (section, method) names of a call index, or the message of the error it throws;
  \<^item> \<open>tx_section\<close>: whether \<^verbatim>\<open>api.tx[section]\<close> is defined (a read of
    \<^verbatim>\<open>api.tx[section][method]\<close> throws when it is not);
  \<^item> \<open>tx\<close>: the call \<^verbatim>\<open>api.tx[section][method](...)\<close> on evaluated arguments, with
    the message of the error it throws (also when the member is no function);
  \<^item> \<open>sudo_key\<close>: \<^verbatim>\<open>(await api.query.sudo.key()).toString()\<close>;
  \<^item> \<open>account_nonce\<close>: \<^verbatim>\<open>(await api.query.system.account(a)).nonce.toNumber()\<close>;
  \<^item> \<open>accepts\<close>: whether the promise of the \<open>n\<close>-th submission of the run
    (\<^verbatim>\<open>send\<close> or \<^verbatim>\<open>signAndSend\<close>, counted from 0) resolves; it rejects otherwise.
\<close>

record 'c api =
  findMetaCall :: "jsval \<Rightarrow> string + (string \<times> string)"
  tx_section :: "string \<Rightarrow> bool"
  tx :: "string \<Rightarrow> string \<Rightarrow> 'c arg list \<Rightarrow> string + 'c"
  sudo_key :: string
  account_nonce :: "string \<Rightarrow> nat"
  accepts :: "nat \<Rightarrow> bool"

text \<open>An error thrown inside the client.\<close>

definition thrown :: "string + 'a \<Rightarrow> error + 'a" where
  "thrown r = (case r of Inl msg \<Rightarrow> Inl (ClientError msg) | Inr a \<Rightarrow> Inr a)"

text \<open>Evaluation of an argument list, left to right: the first error is thrown.\<close>

fun eval_args :: "(error + 'a) list \<Rightarrow> error + 'a list" where
  "eval_args [] = Inr []"
| "eval_args (Inl e # rs) = Inl e"
| "eval_args (Inr a # rs) = (case eval_args rs of Inl e \<Rightarrow> Inl e | Inr as \<Rightarrow> Inr (a # as))"

text \<open>
  \<^verbatim>\<open>api.tx[section][method](a1, ..., an)\<close>: JavaScript reads the callee first (a
  \<^verbatim>\<open>TypeError\<close> when \<^verbatim>\<open>api.tx[section]\<close> is undefined), then evaluates the arguments
  in order, then calls.
\<close>

definition api_tx :: "'c api \<Rightarrow> string \<Rightarrow> string \<Rightarrow> (error + 'c arg) list \<Rightarrow> error + 'c" where
  "api_tx api section method as =
     (if \<not> tx_section api section then Inl TypeError
      else case eval_args as of Inl e \<Rightarrow> Inl e | Inr vs \<Rightarrow> thrown (tx api section method vs))"

text \<open>An argument that is a property read, and an argument that is a call.\<close>

definition val :: "error + jsval \<Rightarrow> error + 'c arg" where
  "val r = (case r of Inl e \<Rightarrow> Inl e | Inr v \<Rightarrow> Inr (Val v))"

definition nested :: "error + 'c \<Rightarrow> error + 'c arg" where
  "nested r = (case r of Inl e \<Rightarrow> Inl e | Inr c \<Rightarrow> Inr (Nested c))"

section \<open>The call resolver\<close>

text \<open>
  \<^verbatim>\<open>const { args, callIndex } = details\<close>: throws on \<^verbatim>\<open>undefined\<close> and \<^verbatim>\<open>null\<close>.
\<close>

definition destructure :: "jsval \<Rightarrow> error + (jsval \<times> jsval)" where
  "destructure details =
     (case read_prop details ''args'' of Inl e \<Rightarrow> Inl e
      | Inr args \<Rightarrow>
          (case read_prop details ''callIndex'' of Inl e \<Rightarrow> Inl e
           | Inr callIndex \<Rightarrow> Inr (args, callIndex)))"

text \<open>
  Every value a descriptor's fields lead to is smaller than the descriptor: the resolver's
  recursion follows the nesting of the parsed JSON.
\<close>

lemma map_of_size: "map_of kvs k = Some v \<Longrightarrow> size v < Suc (size_list (size_prod (\<lambda>x. 0) size) kvs)"
  by (induction kvs) (auto split: if_splits)

lemma read_prop_size: "read_prop v k = Inr w \<Longrightarrow> size w \<le> size v"
  by (cases v) (auto split: option.splits if_splits dest: map_of_size)

lemma destructure_size:
  assumes "destructure details = Inr (args, callIndex)" and "read_prop args k = Inr d"
  shows "size d < size details"
  using assms
  by (cases details; cases args) (auto simp: destructure_def split: option.splits if_splits sum.splits dest!: map_of_size)

lemma as_array_size: "as_array cs = Inr ds \<Longrightarrow> d \<in> set ds \<Longrightarrow> size d < size cs"
  by (cases cs) (auto simp: less_Suc_eq_le size_list_estimation')

lemma batch_size:
  assumes "destructure details = Inr (args, callIndex)" and "read_prop args k = Inr cs"
    and "as_array cs = Inr ds" and "d \<in> set ds"
  shows "size d < size details"
proof -
  have "size cs < size details" using assms(1,2) by (rule destructure_size)
  moreover have "size d < size cs" using assms(3,4) by (rule as_array_size)
  ultimately show ?thesis by simp
qed

text \<open>
  \<^verbatim>\<open>createCall(api, details)\<close>: the switch on the method name, case by case in the
  order of the source. In \<^verbatim>\<open>proxy\<close> and \<^verbatim>\<open>batch\<close> the nested calls are resolved in
  a statement of their own, before the constructor is read; in \<^verbatim>\<open>sudo\<close> the nested
  call is an argument expression.
\<close>

function createCall :: "'c api \<Rightarrow> jsval \<Rightarrow> error + 'c" where
  "createCall api details =
     (case destructure details of Inl e \<Rightarrow> Inl e
      | Inr (args, callIndex) \<Rightarrow>
     (case thrown (findMetaCall api callIndex) of Inl e \<Rightarrow> Inl e
      | Inr (section, method) \<Rightarrow>
        if method = ''killStorage'' then
          api_tx api section method [val (read_prop args ''keys'')]
        else if method = ''setStorage'' then
          api_tx api section method [val (read_prop args ''items'')]
        else if method = ''bond'' then
          api_tx api section method
            [val (read_prop args ''controller''), val (read_prop args ''value''),
             val (read_prop args ''payee'')]
        else if method = ''nominate'' then
          api_tx api section method [val (read_prop args ''targets'')]
        else if method = ''setController'' then
          api_tx api section method [val (read_prop args ''controller'')]
        else if method = ''setKeys'' then
          api_tx api section method [val (read_prop args ''keys''), val (read_prop args ''proof'')]
        else if method = ''validate'' then
          api_tx api section method [val (read_prop args ''prefs'')]
        else if method = ''forceTransfer'' then
          api_tx api section method
            [val (read_prop args ''source''), val (read_prop args ''dest''),
             val (read_prop args ''value'')]
        else if method = ''transfer'' then
          api_tx api section method [val (read_prop args ''dest''), val (read_prop args ''value'')]
        else if method = ''proxy'' then
          (case read_prop args ''call'' of Inl e \<Rightarrow> Inl e
           | Inr d \<Rightarrow>
          (case createCall api d of Inl e \<Rightarrow> Inl e
           | Inr call \<Rightarrow>
             api_tx api section method
               [val (read_prop args ''real''), val (read_prop args ''force_proxy_type''),
                Inr (Nested call)]))
        else if method = ''sudo'' then
          api_tx api section method
            [case read_prop args ''call'' of Inl e \<Rightarrow> Inl e
             | Inr d \<Rightarrow> nested (createCall api d)]
        else if method = ''batch'' then
          (case read_prop args ''calls'' of Inl e \<Rightarrow> Inl e
           | Inr cs \<Rightarrow>
          (case as_array cs of Inl e \<Rightarrow> Inl e
           | Inr ds \<Rightarrow>
          (case eval_args (map (createCall api) ds) of Inl e \<Rightarrow> Inl e
           | Inr calls \<Rightarrow> api_tx api section method [Inr (NestedList calls)])))
        else if method = ''anonymous'' then
          api_tx api section method [val (read_prop args ''proxy_type''), val (read_prop args ''index'')]
        else Inl (MethodMissing section method)))"
  by pat_completeness auto
termination
proof (relation "measure (\<lambda>(api, details). size details)", goal_cases)
  case 1
  show ?case by simp
next
  case 2
  then show ?case by (auto dest: destructure_size)
next
  case 3
  then show ?case by (auto dest: destructure_size)
next
  case 4
  then show ?case by (auto dest: batch_size)
qed

declare createCall.simps [simp del]

section \<open>The records of the log and the options\<close>

text \<open>
  A block record and its extrinsics, with the fields \<^verbatim>\<open>migrate\<close> reads. The signature
  of an extrinsic may be absent.
\<close>

record tx_signature =
  signer :: string

record extrinsic =
  args :: "jsval list"
  hash :: string
  "method" :: string
  signature :: "tx_signature option"

record block =
  extrinsics :: "extrinsic list"
  number :: int

record options =
  dbPath :: string
  dry :: bool
  ensureComplete :: bool
  trickle :: bool
  suri :: string
  wsEndpoint :: string

section \<open>The migration sequencer\<close>

text \<open>
  What a run does to the outside, in order: the lines it prints, the submissions it makes
  and the delays it takes.
  \<^item> \<open>Send c\<close>: \<^verbatim>\<open>c.send(callback)\<close>, the unsigned submission;
  \<^item> \<open>SignAndSend c account nonce label\<close>:
    \<^verbatim>\<open>c.signAndSend(mySigner, callback)\<close>. \<open>nonce\<close> is the nonce among the arguments of
    \<^verbatim>\<open>signAndSend\<close>, \<open>None\<close> when the call passes none (the client then takes the
    account's next nonce from the network); \<open>label\<close> is the number in the
    \<^verbatim>\<open>nonceStr\<close> that the callback prints;
  \<^item> \<open>Sleep ms\<close>: \<^verbatim>\<open>await sleep(ms)\<close>.
\<close>

datatype 'c event =
    LogSigner string
  | LogChecking int
  | LogSkipIgnore string
  | LogSkipUpgrade
  | LogStubUnsigned
  | LogMigrating nat string string string
  | Send 'c
  | SignAndSend 'c string "nat option" nat
  | Sleep nat

text \<open>
  The variables of the loop: \<^verbatim>\<open>index\<close> and \<^verbatim>\<open>wait\<close>. \<open>sent\<close> is not a variable of
  the source: it counts the submissions made so far, the position in the client's answers.
\<close>

record seq_state =
  index :: nat
  wait :: bool
  sent :: nat

type_synonym 'c outcome = "'c event list \<times> (error + seq_state)"

text \<open>One statement after another: an error ends the run with the events so far.\<close>

definition and_then :: "'c outcome \<Rightarrow> (seq_state \<Rightarrow> 'c outcome) \<Rightarrow> 'c outcome" where
  "and_then r f =
     (case r of
        (evs, Inl e) \<Rightarrow> (evs, Inl e)
      | (evs, Inr s) \<Rightarrow> (case f s of (evs', r') \<Rightarrow> (evs @ evs', r')))"

text \<open>\<^verbatim>\<open>method.split('.')\<close>.\<close>

fun split_dot :: "string \<Rightarrow> string list" where
  "split_dot [] = [[]]"
| "split_dot (c # cs) =
     (if c = CHR ''.'' then [] # split_dot cs
      else (case split_dot cs of [] \<Rightarrow> [[c]] | p # ps \<Rightarrow> (c # p) # ps))"

text \<open>
  \<^verbatim>\<open>const [module, txType] = method.split('.')\<close>. Without a dot \<^verbatim>\<open>txType\<close> is
  \<^verbatim>\<open>undefined\<close>; the source only compares it with string literals, prints it and uses it
  as a property key, and in each of these \<^verbatim>\<open>undefined\<close> acts as the string
  \<^verbatim>\<open>"undefined"\<close>.
\<close>

definition module_of :: "string \<Rightarrow> string" where
  "module_of m = (case split_dot m of [] \<Rightarrow> ''undefined'' | p # ps \<Rightarrow> p)"

definition txType_of :: "string \<Rightarrow> string" where
  "txType_of m = (case split_dot m of p # t # ps \<Rightarrow> t | _ \<Rightarrow> ''undefined'')"

text \<open>\<^verbatim>\<open>args[0].args.code\<close> as a condition.\<close>

definition carries_code :: "jsval list \<Rightarrow> error + bool" where
  "carries_code as =
     (case read_prop (at_index as 0) ''args'' of Inl e \<Rightarrow> Inl e
      | Inr a \<Rightarrow> (case read_prop a ''code'' of Inl e \<Rightarrow> Inl e | Inr c \<Rightarrow> Inr (truthy c)))"

text \<open>The switch that constructs the proposal of a signed transaction.\<close>

definition construct_proposal :: "'c api \<Rightarrow> string \<Rightarrow> string \<Rightarrow> jsval list \<Rightarrow> error + 'c" where
  "construct_proposal api module txType as =
     (if txType = ''batch'' then
        (case as_array (at_index as 0) of Inl e \<Rightarrow> Inl e
         | Inr ds \<Rightarrow>
        (case eval_args (map (createCall api) ds) of Inl e \<Rightarrow> Inl e
         | Inr calls \<Rightarrow> api_tx api module txType [Inr (NestedList calls)]))
      else if txType = ''sudo'' then
        api_tx api module txType [nested (createCall api (at_index as 0))]
      else if txType = ''sudoUncheckedWeight'' then
        api_tx api module txType
          [nested (createCall api (at_index as 0)), Inr (Val (at_index as 1))]
      else if txType = ''asMulti'' then
        api_tx api module txType
          [Inr (Val (at_index as 0)), Inr (Val (at_index as 1)), Inr (Val (at_index as 2)),
           nested (createCall api (at_index as 3))]
      else api_tx api module txType (map (\<lambda>a. Inr (Val a)) as))"

text \<open>
  The unsigned transaction \<^verbatim>\<open>claimAttest\<close>: everything the \<^verbatim>\<open>try\<close> block throws is
  thrown again, wrapped.
\<close>

definition submit_unsigned ::
  "'c api \<Rightarrow> options \<Rightarrow> string \<Rightarrow> string \<Rightarrow> jsval list \<Rightarrow> seq_state \<Rightarrow> 'c outcome" where
  "submit_unsigned api opts module txType as s =
     (if \<not> dry opts then
        (case api_tx api module txType (map (\<lambda>a. Inr (Val a)) as) of
           Inl e \<Rightarrow> ([], Inl (FailedSubmitting e))
         | Inr c \<Rightarrow>
             if accepts api (sent s)
             then ([Send c],
                   Inr (s\<lparr>wait := (if trickle opts then True else wait s), sent := Suc (sent s)\<rparr>))
             else ([Send c], Inl (FailedSubmitting Rejected)))
      else ([LogStubUnsigned], Inr s))"

text \<open>
  A signed transaction: the proposal is constructed, the line is printed, and unless the
  run is dry the proposal goes out inside \<^verbatim>\<open>sudo.sudoAs\<close>. The source calls
  \<^verbatim>\<open>signAndSend(mySigner, callback)\<close>: \<^verbatim>\<open>currentNonce\<close> is in the printed line and in the
  callback's \<^verbatim>\<open>nonceStr\<close>, and not among the arguments.
\<close>

definition submit_signed ::
  "'c api \<Rightarrow> options \<Rightarrow> string \<Rightarrow> nat \<Rightarrow> string \<Rightarrow> string \<Rightarrow> extrinsic \<Rightarrow> seq_state \<Rightarrow> 'c outcome" where
  "submit_signed api opts mySigner startingNonce module txType x s =
     (case signature x of
        None \<Rightarrow> ([], Inl TypeError)
      | Some sg \<Rightarrow>
          let currentNonce = startingNonce + index s in
          (case construct_proposal api module txType (args x) of
             Inl e \<Rightarrow> ([], Inl e)
           | Inr proposal \<Rightarrow>
               let logStr = LogMigrating currentNonce module txType (signer sg) in
               if \<not> dry opts then
                 (case api_tx api ''sudo'' ''sudoAs''
                         [Inr (Val (JStr (signer sg))), Inr (Nested proposal)] of
                    Inl e \<Rightarrow> ([logStr], Inl e)
                  | Inr c \<Rightarrow>
                      if accepts api (sent s)
                      then ([logStr, SignAndSend c mySigner None currentNonce],
                            Inr (s\<lparr>index := Suc (index s),
                                   wait := (if trickle opts then True else wait s),
                                   sent := Suc (sent s)\<rparr>))
                      else ([logStr, SignAndSend c mySigner None currentNonce], Inl Rejected))
               else ([logStr], Inr (s\<lparr>index := Suc (index s)\<rparr>))))"

text \<open>
  The body of the inner loop, for one extrinsic: the ignore list, the runtime-upgrade
  skip, then the unsigned or the signed path. \<open>ignore\<close> is the list \<^verbatim>\<open>IgnoreMethods\<close>
  of \<^verbatim>\<open>./consts\<close>, which is a parameter here.
\<close>

definition process_extrinsic ::
  "'c api \<Rightarrow> string list \<Rightarrow> options \<Rightarrow> string \<Rightarrow> nat \<Rightarrow> extrinsic \<Rightarrow> seq_state \<Rightarrow> 'c outcome" where
  "process_extrinsic api ignore opts mySigner startingNonce x s =
     (if method x \<in> set ignore then ([LogSkipIgnore (method x)], Inr s)
      else
        let module = module_of (method x); txType = txType_of (method x) in
        (case (if txType = ''sudoUncheckedWeight'' then carries_code (args x) else Inr False) of
           Inl e \<Rightarrow> ([], Inl e)
         | Inr True \<Rightarrow> ([LogSkipUpgrade], Inr s)
         | Inr False \<Rightarrow>
             if txType = ''claimAttest'' then submit_unsigned api opts module txType (args x) s
             else submit_signed api opts mySigner startingNonce module txType x s))"

text \<open>\<^verbatim>\<open>for (const extrinsic of extrinsics)\<close>.\<close>

fun process_extrinsics ::
  "'c api \<Rightarrow> string list \<Rightarrow> options \<Rightarrow> string \<Rightarrow> nat \<Rightarrow> extrinsic list \<Rightarrow> seq_state \<Rightarrow> 'c outcome" where
  "process_extrinsics api ignore opts mySigner startingNonce [] s = ([], Inr s)"
| "process_extrinsics api ignore opts mySigner startingNonce (x # xs) s =
     and_then (process_extrinsic api ignore opts mySigner startingNonce x s)
       (process_extrinsics api ignore opts mySigner startingNonce xs)"

text \<open>
  The body of the outer loop, for one block: its line, its extrinsics, and the delay when
  \<^verbatim>\<open>wait\<close> is set.
\<close>

definition process_block ::
  "'c api \<Rightarrow> string list \<Rightarrow> options \<Rightarrow> string \<Rightarrow> nat \<Rightarrow> block \<Rightarrow> seq_state \<Rightarrow> 'c outcome" where
  "process_block api ignore opts mySigner startingNonce b s =
     and_then
       (and_then ([LogChecking (number b)], Inr s)
          (process_extrinsics api ignore opts mySigner startingNonce (extrinsics b)))
       (\<lambda>s. if wait s then ([Sleep 6000], Inr s) else ([], Inr s))"

text \<open>\<^verbatim>\<open>for (const block of blocks)\<close>.\<close>

fun process_blocks ::
  "'c api \<Rightarrow> string list \<Rightarrow> options \<Rightarrow> string \<Rightarrow> nat \<Rightarrow> block list \<Rightarrow> seq_state \<Rightarrow> 'c outcome" where
  "process_blocks api ignore opts mySigner startingNonce [] s = ([], Inr s)"
| "process_blocks api ignore opts mySigner startingNonce (b # bs) s =
     and_then (process_block api ignore opts mySigner startingNonce b s)
       (process_blocks api ignore opts mySigner startingNonce bs)"

text \<open>
  The completeness check, the \<^verbatim>\<open>while\<close> loop on \<^verbatim>\<open>count\<close>. It starts at 1, so
  \<^verbatim>\<open>count - 1\<close> and \<^verbatim>\<open>count\<close> are indices of \<^verbatim>\<open>blocks\<close> wherever they are read.
\<close>

function check_complete :: "block list \<Rightarrow> nat \<Rightarrow> error option" where
  "check_complete blocks count =
     (if count < length blocks then
        (if number (blocks ! (count - 1)) \<noteq> int count
         then Some (MissingBlock count (number (blocks ! count)))
         else check_complete blocks (Suc count))
      else None)"
  by pat_completeness auto
termination
  by (relation "measure (\<lambda>(blocks, count). length blocks - count)") auto

declare check_complete.simps [simp del]

text \<open>
  \<^verbatim>\<open>migrate(opts)\<close>. \<open>lines\<close> are the records parsed from the non-empty lines of the
  file at \<^verbatim>\<open>dbPath\<close>, in the order of the file; \<open>mySigner\<close> is the address of
  \<^verbatim>\<open>initializeSigner(suri)\<close>; \<open>api\<close> is the client connected to \<^verbatim>\<open>wsEndpoint\<close>.
  The sort is the stable ascending sort of \<^verbatim>\<open>Array.prototype.sort\<close> with the comparator
  \<^verbatim>\<open>a.number - b.number\<close>.
\<close>

definition migrate ::
  "'c api \<Rightarrow> string list \<Rightarrow> string \<Rightarrow> block list \<Rightarrow> options \<Rightarrow> 'c outcome" where
  "migrate api ignore mySigner lines opts =
     (let blocks = sort_key number lines in
      case (if ensureComplete opts then check_complete blocks 1 else None) of
        Some e \<Rightarrow> ([], Inl e)
      | None \<Rightarrow>
          if \<not> dry opts \<and> mySigner \<noteq> sudo_key api
          then ([LogSigner mySigner], Inl (NotSudoSigner mySigner (sudo_key api)))
          else
            let startingNonce = account_nonce api mySigner in
            and_then ([LogSigner mySigner], Inr \<lparr>index = 0, wait = False, sent = 0\<rparr>)
              (process_blocks api ignore opts mySigner startingNonce blocks))"

section \<open>Observations on a run\<close>

text \<open>The method names of the \<^verbatim>\<open>case\<close> labels of \<^verbatim>\<open>createCall\<close>, in their order.\<close>

definition supported_methods :: "string list" where
  "supported_methods =
     [''killStorage'', ''setStorage'', ''bond'', ''nominate'', ''setController'', ''setKeys'',
      ''validate'', ''forceTransfer'', ''transfer'', ''proxy'', ''sudo'', ''batch'',
      ''anonymous'']"

text \<open>The events that hand a transaction to the network.\<close>

fun is_submission :: "'c event \<Rightarrow> bool" where
  "is_submission (Send c) = True"
| "is_submission (SignAndSend c a n l) = True"
| "is_submission ev = False"

text \<open>The numbers of \<^verbatim>\<open>currentNonce\<close> in the lines the signed path prints, in order.\<close>

fun nonces :: "'c event list \<Rightarrow> nat list" where
  "nonces [] = []"
| "nonces (LogMigrating n m t sg # evs) = n # nonces evs"
| "nonces (ev # evs) = nonces evs"

text \<open>The labels of the status callbacks of the signed submissions, in order.\<close>

fun labels :: "'c event list \<Rightarrow> nat list" where
  "labels [] = []"
| "labels (SignAndSend c a n l # evs) = l # labels evs"
| "labels (ev # evs) = labels evs"

text \<open>
  The extrinsics that reach the \<^verbatim>\<open>else\<close> branch of the loop body: not ignored, not a
  skipped runtime upgrade, not \<^verbatim>\<open>claimAttest\<close>.
\<close>

definition takes_signed_path :: "string list \<Rightarrow> extrinsic \<Rightarrow> bool" where
  "takes_signed_path ignore x \<longleftrightarrow>
     method x \<notin> set ignore \<and>
     (if txType_of (method x) = ''sudoUncheckedWeight'' then carries_code (args x) = Inr False
      else txType_of (method x) \<noteq> ''claimAttest'')"

text \<open>
  The descriptors that the switch on \<^verbatim>\<open>txType\<close> hands to \<^verbatim>\<open>createCall\<close>: the
  elements of \<^verbatim>\<open>args[0]\<close> for a batch, \<^verbatim>\<open>args[0]\<close> for \<^verbatim>\<open>sudo\<close> and
  \<^verbatim>\<open>sudoUncheckedWeight\<close>, \<^verbatim>\<open>args[3]\<close> for \<^verbatim>\<open>asMulti\<close>, none otherwise.
\<close>

definition nested_descriptors :: "string \<Rightarrow> jsval list \<Rightarrow> jsval list" where
  "nested_descriptors txType as =
     (if txType = ''batch'' then (case as_array (at_index as 0) of Inl e \<Rightarrow> [] | Inr ds \<Rightarrow> ds)
      else if txType = ''sudo'' then [at_index as 0]
      else if txType = ''sudoUncheckedWeight'' then [at_index as 0]
      else if txType = ''asMulti'' then [at_index as 3]
      else [])"


section \<open>A test client and test data\<close>

text \<open>
  A client for concrete runs: its call objects record the section, the method and the
  arguments; every section exists, every submission is accepted, the sudo key is
  \<^verbatim>\<open>5Sudo\<close> and every account's nonce is 100.
\<close>

datatype call = Call string string "call arg list"

definition test_registry :: "jsval \<Rightarrow> string + (string \<times> string)" where
  "test_registry callIndex =
     (if callIndex = JStr ''0x0400'' then Inr (''balances'', ''transfer'')
      else if callIndex = JStr ''0x0600'' then Inr (''sudo'', ''sudo'')
      else if callIndex = JStr ''0x1800'' then Inr (''utility'', ''batch'')
      else if callIndex = JStr ''0x0001'' then Inr (''system'', ''remark'')
      else Inl ''findMetaCall: Unable to find Call'')"

definition test_api :: "call api" where
  "test_api =
     \<lparr>findMetaCall = test_registry, tx_section = (\<lambda>s. True),
      tx = (\<lambda>s m as. Inr (Call s m as)), sudo_key = ''5Sudo'',
      account_nonce = (\<lambda>a. 100), accepts = (\<lambda>n. True)\<rparr>"

definition test_options :: options where
  "test_options =
     \<lparr>dbPath = ''db.json'', dry = False, ensureComplete = True, trickle = True,
      suri = ''//Sudo'', wsEndpoint = ''ws://localhost:9944''\<rparr>"

definition empty_block :: "int \<Rightarrow> block" where
  "empty_block n = \<lparr>extrinsics = [], number = n\<rparr>"

definition signed_transfer :: "string \<Rightarrow> string \<Rightarrow> int \<Rightarrow> extrinsic" where
  "signed_transfer from dest v =
     \<lparr>args = [JStr dest, JNum v], hash = ''0x01'', method = ''balances.transfer'',
      signature = Some \<lparr>signer = from\<rparr>\<rparr>"

definition claim_attest :: extrinsic where
  "claim_attest =
     \<lparr>args = [JStr ''0xeth'', JStr ''0xsig'', JStr ''Regular''], hash = ''0x02'',
      method = ''claims.claimAttest'', signature = None\<rparr>"

definition transfer_details :: "string \<Rightarrow> int \<Rightarrow> jsval" where
  "transfer_details dest v =
     JObj [(''callIndex'', JStr ''0x0400''),
           (''args'', JObj [(''dest'', JStr dest), (''value'', JNum v)])]"

definition sudo_details :: "jsval \<Rightarrow> jsval" where
  "sudo_details d = JObj [(''callIndex'', JStr ''0x0600''), (''args'', JObj [(''call'', d)])]"

definition batch_details :: "jsval list \<Rightarrow> jsval" where
  "batch_details ds =
     JObj [(''callIndex'', JStr ''0x1800''), (''args'', JObj [(''calls'', JArr ds)])]"

definition remark_details :: jsval where
  "remark_details =
     JObj [(''callIndex'', JStr ''0x0001''), (''args'', JObj [(''_remark'', JStr ''0x00'')])]"

definition three_calls :: "jsval list" where
  "three_calls =
     [transfer_details ''bob'' 5, sudo_details (transfer_details ''carol'' 7),
      transfer_details ''dave'' 9]"

text \<open>Logs for concrete runs.\<close>

definition interleaved :: "block list" where
  "interleaved =
     [\<lparr>extrinsics =
         [signed_transfer ''5Alice'' ''5Bob'' 5, signed_transfer ''5Bob'' ''5Carol'' 7,
          claim_attest, signed_transfer ''5Carol'' ''5Dave'' 9],
       number = 1\<rparr>]"

definition two_blocks :: "block list" where
  "two_blocks =
     [\<lparr>extrinsics = [signed_transfer ''5Alice'' ''5Bob'' 5], number = 1\<rparr>,
      \<lparr>extrinsics = [], number = 2\<rparr>]"

definition one_block :: "block list" where
  "one_block = [\<lparr>extrinsics = [signed_transfer ''5Alice'' ''5Bob'' 5], number = 1\<rparr>]"


definition sudo_extrinsic :: "jsval \<Rightarrow> extrinsic" where
  "sudo_extrinsic d =
     \<lparr>args = [d], hash = ''0x04'', method = ''sudo.sudo'',
      signature = Some \<lparr>signer = ''5Sudo''\<rparr>\<rparr>"



definition nested_log :: "block list" where
  "nested_log =
     [\<lparr>extrinsics =
         [signed_transfer ''5Alice'' ''5Bob'' 5, sudo_extrinsic (transfer_details ''5Carol'' 7),
          claim_attest],
       number = 1\<rparr>]"

definition unresolvable_log :: "block list" where
  "unresolvable_log = [\<lparr>extrinsics = [sudo_extrinsic remark_details], number = 1\<rparr>]"

section \<open>Lemmas\<close>









lemma and_then_Inl [simp]: "and_then (evs, Inl e) f = (evs, Inl e)"
  by (simp add: and_then_def)

lemma and_then_Inr [simp]: "and_then (evs, Inr s) f = (evs @ fst (f s), snd (f s))"
  by (simp add: and_then_def split: prod.splits)

lemma fst_and_then:
  "fst (and_then r f) = (case snd r of Inl e \<Rightarrow> fst r | Inr s \<Rightarrow> fst r @ fst (f s))"
  by (cases r; cases "snd r") auto

lemma snd_and_then:
  "snd (and_then r f) = (case snd r of Inl e \<Rightarrow> Inl e | Inr s \<Rightarrow> snd (f s))"
  by (cases r; cases "snd r") auto

lemma nonces_append [simp]: "nonces (xs @ ys) = nonces xs @ nonces ys"
  by (induction xs rule: nonces.induct) auto

text \<open>A property of every event of a step is a property of every event of the loop.\<close>

lemma process_extrinsics_all:
  assumes "\<And>x s. x \<in> set xs \<Longrightarrow> \<forall>ev \<in> set (fst (process_extrinsic api ig opts me sn x s)). P ev"
  shows "\<forall>ev \<in> set (fst (process_extrinsics api ig opts me sn xs s)). P ev"
  using assms
proof (induction xs arbitrary: s)
  case Nil
  then show ?case by simp
next
  case (Cons x xs)
  have a: "\<forall>ev \<in> set (fst (process_extrinsic api ig opts me sn x s)). P ev"
    by (rule Cons.prems) simp
  have b: "\<And>s. \<forall>ev \<in> set (fst (process_extrinsics api ig opts me sn xs s)). P ev"
    by (rule Cons.IH) (use Cons.prems in auto)
  show ?case using a b by (auto simp: fst_and_then split: sum.splits)
qed

lemma process_block_all:
  assumes "\<And>x s. x \<in> set (extrinsics b) \<Longrightarrow> \<forall>ev \<in> set (fst (process_extrinsic api ig opts me sn x s)). P ev"
    and "P (LogChecking (number b))" and "P (Sleep 6000)"
  shows "\<forall>ev \<in> set (fst (process_block api ig opts me sn b s)). P ev"
  using process_extrinsics_all[of "extrinsics b" api ig opts me sn P, OF assms(1)] assms(2,3)
  by (auto simp: process_block_def fst_and_then snd_and_then split: sum.splits)

lemma process_blocks_all:
  assumes "\<And>b x s. b \<in> set bs \<Longrightarrow> x \<in> set (extrinsics b) \<Longrightarrow> \<forall>ev \<in> set (fst (process_extrinsic api ig opts me sn x s)). P ev"
    and "\<And>n. P (LogChecking n)" and "P (Sleep 6000)"
  shows "\<forall>ev \<in> set (fst (process_blocks api ig opts me sn bs s)). P ev"
  using assms
proof (induction bs arbitrary: s)
  case Nil
  then show ?case by simp
next
  case (Cons b bs)
  have "\<forall>ev \<in> set (fst (process_block api ig opts me sn b s)). P ev"
    by (rule process_block_all) (use Cons.prems in auto)
  moreover have "\<And>s. \<forall>ev \<in> set (fst (process_blocks api ig opts me sn bs s)). P ev"
    by (rule Cons.IH) (use Cons.prems in auto)
  ultimately show ?case by (auto simp: fst_and_then split: sum.splits)
qed

lemma process_extrinsic_dry:
  "dry opts \<Longrightarrow> \<forall>ev \<in> set (fst (process_extrinsic api ig opts me sn x s)). \<not> is_submission ev"
  by (auto simp: process_extrinsic_def submit_unsigned_def submit_signed_def Let_def
      split: sum.splits bool.splits option.splits)

lemma process_blocks_dry:
  "dry opts \<Longrightarrow> \<forall>ev \<in> set (fst (process_blocks api ig opts me sn bs s)). \<not> is_submission ev"
  by (rule process_blocks_all) (auto dest: process_extrinsic_dry)







lemma check_complete_iff_aux:
  "0 < count \<Longrightarrow> check_complete blocks count = None \<longleftrightarrow> (\<forall>i. count \<le> i \<and> i < length blocks \<longrightarrow> number (blocks ! (i - 1)) = int i)"
proof (induction blocks count rule: check_complete.induct)
  case (1 blocks count)
  show ?case
  proof (cases "count < length blocks")
    case False
    then show ?thesis by (simp add: check_complete.simps)
  next
    case True
    show ?thesis
    proof (cases "number (blocks ! (count - 1)) = int count")
      case False
      with True show ?thesis by (auto simp: check_complete.simps[of blocks count])
    next
      case eq: True
      have "check_complete blocks count = check_complete blocks (Suc count)"
        using True eq by (simp add: check_complete.simps[of blocks count])
      also have "\<dots> = None \<longleftrightarrow> (\<forall>i. Suc count \<le> i \<and> i < length blocks \<longrightarrow> number (blocks ! (i - 1)) = int i)"
        using 1 True eq by simp
      also have "\<dots> \<longleftrightarrow> (\<forall>i. count \<le> i \<and> i < length blocks \<longrightarrow> number (blocks ! (i - 1)) = int i)"
        using eq by (metis Suc_leI le_eq_less_or_eq Suc_leD)
      finally show ?thesis .
    qed
  qed
qed

lemma check_complete_iff:
  "check_complete blocks 1 = None \<longleftrightarrow> map number (butlast blocks) = map int [1..<length blocks]"
proof -
  have "check_complete blocks 1 = None \<longleftrightarrow>
        (\<forall>i. 1 \<le> i \<and> i < length blocks \<longrightarrow> number (blocks ! (i - 1)) = int i)"
    by (rule check_complete_iff_aux) simp
  also have "\<dots> \<longleftrightarrow> (\<forall>j < length blocks - 1. number (blocks ! j) = int (Suc j))"
  proof (intro iffI allI impI)
    fix j assume h: "\<forall>i. 1 \<le> i \<and> i < length blocks \<longrightarrow> number (blocks ! (i - 1)) = int i"
      and "j < length blocks - 1"
    then have "1 \<le> Suc j \<and> Suc j < length blocks" by simp
    with h have "number (blocks ! (Suc j - 1)) = int (Suc j)" by blast
    then show "number (blocks ! j) = int (Suc j)" by simp
  next
    fix i assume h: "\<forall>j < length blocks - 1. number (blocks ! j) = int (Suc j)"
      and i: "1 \<le> i \<and> i < length blocks"
    then have "i - 1 < length blocks - 1" by arith
    with h have "number (blocks ! (i - 1)) = int (Suc (i - 1))" by blast
    with i show "number (blocks ! (i - 1)) = int i" by simp
  qed
  also have "\<dots> \<longleftrightarrow> map number (butlast blocks) = map int [1..<length blocks]"
    by (auto simp: list_eq_iff_nth_eq nth_butlast)
  finally show ?thesis .
qed

lemma test_api_simps [simp]:
  "findMetaCall test_api = test_registry"
  "tx_section test_api sec = True"
  "tx test_api sec m as = Inr (Call sec m as)"
  "sudo_key test_api = ''5Sudo''"
  "account_nonce test_api acc = 100"
  "accepts test_api n = True"
  by (simp_all add: test_api_def)

lemma createCall_transfer:
  "createCall test_api (transfer_details dest v)
     = Inr (Call ''balances'' ''transfer'' [Val (JStr dest), Val (JNum v)])"
  by (subst createCall.simps)
     (simp add: transfer_details_def destructure_def test_registry_def thrown_def
        api_tx_def val_def)

lemma createCall_sudo:
  "createCall test_api (sudo_details d)
     = api_tx test_api ''sudo'' ''sudo'' [nested (createCall test_api d)]"
  by (subst createCall.simps)
     (simp add: sudo_details_def destructure_def test_registry_def thrown_def)

lemma createCall_sudo_transfer:
  "createCall test_api (sudo_details (transfer_details dest v))
     = Inr (Call ''sudo'' ''sudo'' [Nested (Call ''balances'' ''transfer'' [Val (JStr dest), Val (JNum v)])])"
  by (simp add: createCall_sudo createCall_transfer nested_def api_tx_def thrown_def)

lemma eval_args_Inr: "eval_args (map Inr cs) = Inr cs"
  by (induction cs) auto


text \<open>A loop over an appended list is one loop after the other.\<close>

lemma labels_append [simp]: "labels (xs @ ys) = labels xs @ labels ys"
  by (induction xs rule: labels.induct) auto

lemma and_then_assoc:
  "and_then (and_then r f) g = and_then r (\<lambda>s. and_then (f s) g)"
  by (cases r; cases "snd r") (auto simp: and_then_def split: prod.splits sum.splits)


lemma process_blocks_append:
  "process_blocks api ig opts me sn (bs @ cs) s
     = and_then (process_blocks api ig opts me sn bs s) (process_blocks api ig opts me sn cs)"
proof (induction bs arbitrary: s)
  case Nil
  show ?case by (simp add: prod_eq_iff)
next
  case (Cons b bs)
  have "process_blocks api ig opts me sn (bs @ cs)
      = (\<lambda>s. and_then (process_blocks api ig opts me sn bs s)
               (process_blocks api ig opts me sn cs))"
    by (rule ext) (rule Cons.IH)
  then show ?case by (simp add: and_then_assoc)
qed

text \<open>Success of a loop is success of every step.\<close>

lemma process_extrinsics_Inr:
  "snd (process_extrinsics api ig opts me sn xs s) = Inr s' \<Longrightarrow> x \<in> set xs \<Longrightarrow>
   \<exists>s1 s2. snd (process_extrinsic api ig opts me sn x s1) = Inr s2"
proof (induction xs arbitrary: s)
  case Nil
  then show ?case by simp
next
  case (Cons y ys)
  from Cons.prems(1) obtain s1 where
    y: "snd (process_extrinsic api ig opts me sn y s) = Inr s1"
    and ys: "snd (process_extrinsics api ig opts me sn ys s1) = Inr s'"
    by (auto simp: snd_and_then split: sum.splits)
  show ?case
  proof (cases "x = y")
    case True
    with y show ?thesis by blast
  next
    case False
    with Cons.prems(2) have "x \<in> set ys" by simp
    with ys show ?thesis by (rule Cons.IH)
  qed
qed

lemma process_block_Inr:
  "snd (process_block api ig opts me sn b s) = Inr s' \<Longrightarrow>
   \<exists>s2. snd (process_extrinsics api ig opts me sn (extrinsics b) s) = Inr s2"
  by (auto simp: process_block_def snd_and_then split: sum.splits)

lemma process_blocks_Inr:
  "snd (process_blocks api ig opts me sn bs s) = Inr s' \<Longrightarrow> b \<in> set bs \<Longrightarrow>
   \<exists>s1 s2. snd (process_block api ig opts me sn b s1) = Inr s2"
proof (induction bs arbitrary: s)
  case Nil
  then show ?case by simp
next
  case (Cons y ys)
  from Cons.prems(1) obtain s1 where
    y: "snd (process_block api ig opts me sn y s) = Inr s1"
    and ys: "snd (process_blocks api ig opts me sn ys s1) = Inr s'"
    by (auto simp: snd_and_then split: sum.splits)
  show ?case
  proof (cases "b = y")
    case True
    with y show ?thesis by blast
  next
    case False
    with Cons.prems(2) have "b \<in> set ys" by simp
    with ys show ?thesis by (rule Cons.IH)
  qed
qed

lemma process_extrinsic_resolves:
  assumes "snd (process_extrinsic api ig opts me sn x s) = Inr s'" and "takes_signed_path ig x"
  shows "\<exists>sg p. signature x = Some sg \<and>
           construct_proposal api (module_of (method x)) (txType_of (method x)) (args x) = Inr p"
  using assms
  by (auto simp: process_extrinsic_def takes_signed_path_def submit_signed_def Let_def
      split: if_splits option.splits sum.splits)

lemma process_blocks_resolves:
  assumes "snd (process_blocks api ig opts me sn bs s) = Inr s'"
    and "b \<in> set bs" and "x \<in> set (extrinsics b)" and "takes_signed_path ig x"
  shows "\<exists>sg p. signature x = Some sg \<and>
           construct_proposal api (module_of (method x)) (txType_of (method x)) (args x) = Inr p"
proof -
  from assms(1,2) obtain s1 s2 where "snd (process_block api ig opts me sn b s1) = Inr s2"
    by (blast dest: process_blocks_Inr)
  then obtain s3 where "snd (process_extrinsics api ig opts me sn (extrinsics b) s1) = Inr s3"
    by (blast dest: process_block_Inr)
  with assms(3) obtain s4 s5 where "snd (process_extrinsic api ig opts me sn x s4) = Inr s5"
    by (blast dest: process_extrinsics_Inr)
  then show ?thesis using assms(4) by (rule process_extrinsic_resolves)
qed

text \<open>The outcomes of the loop body, case by case.\<close>

lemma process_extrinsic_signed:
  "takes_signed_path ig x \<Longrightarrow>
   process_extrinsic api ig opts me sn x s
     = submit_signed api opts me sn (module_of (method x)) (txType_of (method x)) x s"
  by (auto simp: process_extrinsic_def takes_signed_path_def Let_def)

lemma process_extrinsic_other:
  "\<not> takes_signed_path ig x \<Longrightarrow>
   process_extrinsic api ig opts me sn x s = ([LogSkipIgnore (method x)], Inr s) \<or>
   process_extrinsic api ig opts me sn x s = ([LogSkipUpgrade], Inr s) \<or>
   (\<exists>e. process_extrinsic api ig opts me sn x s = ([], Inl e)) \<or>
   process_extrinsic api ig opts me sn x s
     = submit_unsigned api opts (module_of (method x)) (txType_of (method x)) (args x) s"
  by (auto simp: process_extrinsic_def takes_signed_path_def Let_def
      split: sum.splits bool.splits if_splits)

lemma submit_unsigned_cases:
  "submit_unsigned api opts md t as s = ([LogStubUnsigned], Inr s) \<or>
   (\<exists>e. submit_unsigned api opts md t as s = ([], Inl e)) \<or>
   (\<exists>c e. submit_unsigned api opts md t as s = ([Send c], Inl e)) \<or>
   (\<exists>c. \<not> dry opts \<and> submit_unsigned api opts md t as s
      = ([Send c], Inr (s\<lparr>wait := (if trickle opts then True else wait s), sent := Suc (sent s)\<rparr>)))"
  by (auto simp: submit_unsigned_def split: sum.splits)

lemma submit_signed_cases:
  "(\<exists>e. submit_signed api opts me sn md t x s = ([], Inl e)) \<or>
   (\<exists>sg e. submit_signed api opts me sn md t x s
      = ([LogMigrating (sn + index s) md t sg], Inl e)) \<or>
   (\<exists>sg c e. submit_signed api opts me sn md t x s
      = ([LogMigrating (sn + index s) md t sg, SignAndSend c me None (sn + index s)], Inl e)) \<or>
   (\<exists>sg. dry opts \<and> submit_signed api opts me sn md t x s
      = ([LogMigrating (sn + index s) md t sg], Inr (s\<lparr>index := Suc (index s)\<rparr>))) \<or>
   (\<exists>sg c. \<not> dry opts \<and> submit_signed api opts me sn md t x s
      = ([LogMigrating (sn + index s) md t sg, SignAndSend c me None (sn + index s)],
         Inr (s\<lparr>index := Suc (index s), wait := (if trickle opts then True else wait s),
               sent := Suc (sent s)\<rparr>)))"
  by (auto simp: submit_signed_def Let_def split: sum.splits option.splits)


lemma process_extrinsic_cases:
  "(\<not> takes_signed_path ig x \<and>
      (\<exists>l. process_extrinsic api ig opts me sn x s = ([l], Inr s) \<and>
           (l = LogSkipIgnore (method x) \<or> l = LogSkipUpgrade \<or> l = LogStubUnsigned))) \<or>
   (\<not> takes_signed_path ig x \<and> (\<exists>e. process_extrinsic api ig opts me sn x s = ([], Inl e))) \<or>
   (\<not> takes_signed_path ig x \<and>
      (\<exists>c e. process_extrinsic api ig opts me sn x s = ([Send c], Inl e))) \<or>
   (\<not> takes_signed_path ig x \<and> \<not> dry opts \<and>
      (\<exists>c. process_extrinsic api ig opts me sn x s
         = ([Send c],
            Inr (s\<lparr>wait := (if trickle opts then True else wait s), sent := Suc (sent s)\<rparr>)))) \<or>
   (takes_signed_path ig x \<and> (\<exists>e. process_extrinsic api ig opts me sn x s = ([], Inl e))) \<or>
   (takes_signed_path ig x \<and>
      (\<exists>md t sg e. process_extrinsic api ig opts me sn x s
         = ([LogMigrating (sn + index s) md t sg], Inl e))) \<or>
   (takes_signed_path ig x \<and>
      (\<exists>md t sg c e. process_extrinsic api ig opts me sn x s
         = ([LogMigrating (sn + index s) md t sg, SignAndSend c me None (sn + index s)],
            Inl e))) \<or>
   (takes_signed_path ig x \<and> dry opts \<and>
      (\<exists>md t sg. process_extrinsic api ig opts me sn x s
         = ([LogMigrating (sn + index s) md t sg], Inr (s\<lparr>index := Suc (index s)\<rparr>)))) \<or>
   (takes_signed_path ig x \<and> \<not> dry opts \<and>
      (\<exists>md t sg c. process_extrinsic api ig opts me sn x s
         = ([LogMigrating (sn + index s) md t sg, SignAndSend c me None (sn + index s)],
            Inr (s\<lparr>index := Suc (index s), wait := (if trickle opts then True else wait s),
                  sent := Suc (sent s)\<rparr>))))"
proof (cases "takes_signed_path ig x")
  case True
  then have "process_extrinsic api ig opts me sn x s
     = submit_signed api opts me sn (module_of (method x)) (txType_of (method x)) x s"
    by (rule process_extrinsic_signed)
  with True show ?thesis
    using submit_signed_cases[of api opts me sn "module_of (method x)" "txType_of (method x)" x s]
    by (simp only:) blast
next
  case False
  let ?pe = "process_extrinsic api ig opts me sn x s"
  let ?su = "submit_unsigned api opts (module_of (method x)) (txType_of (method x)) (args x) s"
  from process_extrinsic_other[OF False, of api opts me sn s]
  consider (a) "?pe = ([LogSkipIgnore (method x)], Inr s)"
    | (b) "?pe = ([LogSkipUpgrade], Inr s)"
    | (c) e where "?pe = ([], Inl e)"
    | (d) "?pe = ?su"
    by blast
  then show ?thesis
  proof cases
    case a
    with False show ?thesis by simp
  next
    case b
    with False show ?thesis by simp
  next
    case c
    with False show ?thesis by simp
  next
    case d
    from submit_unsigned_cases[of api opts "module_of (method x)" "txType_of (method x)" "args x" s]
    consider (d1) "?su = ([LogStubUnsigned], Inr s)"
      | (d2) e where "?su = ([], Inl e)"
      | (d3) c e where "?su = ([Send c], Inl e)"
      | (d4) c where "\<not> dry opts" "?su
      = ([Send c], Inr (s\<lparr>wait := (if trickle opts then True else wait s), sent := Suc (sent s)\<rparr>))"
      by blast
    then show ?thesis
    proof cases
      case d1
      with d False show ?thesis by simp
    next
      case d2
      with d False show ?thesis by simp
    next
      case d3
      with d False show ?thesis by simp
    next
      case d4
      with d False show ?thesis by simp
    qed
  qed
qed

lemma process_extrinsic_step_nonces:
  "\<exists>k. nonces (fst (process_extrinsic api ig opts me sn x s))
          = map (\<lambda>i. sn + i) [index s..<index s + k] \<and>
     (\<forall>s'. snd (process_extrinsic api ig opts me sn x s) = Inr s' \<longrightarrow>
        index s' = index s + k \<and> k = (if takes_signed_path ig x then 1 else 0))"
proof (cases "nonces (fst (process_extrinsic api ig opts me sn x s)) = []")
  case True
  have "nonces (fst (process_extrinsic api ig opts me sn x s))
          = map (\<lambda>i. sn + i) [index s..<index s + 0] \<and>
     (\<forall>s'. snd (process_extrinsic api ig opts me sn x s) = Inr s' \<longrightarrow>
        index s' = index s + 0 \<and> 0 = (if takes_signed_path ig x then 1 else (0::nat)))"
    using process_extrinsic_cases[of ig x api opts me sn s] True
    by (elim disjE exE conjE) auto
  then show ?thesis by (rule exI)
next
  case False
  have "nonces (fst (process_extrinsic api ig opts me sn x s))
          = map (\<lambda>i. sn + i) [index s..<index s + 1] \<and>
     (\<forall>s'. snd (process_extrinsic api ig opts me sn x s) = Inr s' \<longrightarrow>
        index s' = index s + 1 \<and> 1 = (if takes_signed_path ig x then 1 else (0::nat)))"
    using process_extrinsic_cases[of ig x api opts me sn s] False
    by (elim disjE exE conjE) auto
  then show ?thesis by (rule exI)
qed

lemma process_extrinsic_step_labels:
  "(labels (fst (process_extrinsic api ig opts me sn x s)) = [] \<or>
    labels (fst (process_extrinsic api ig opts me sn x s))
      = nonces (fst (process_extrinsic api ig opts me sn x s))) \<and>
   (\<forall>s'. snd (process_extrinsic api ig opts me sn x s) = Inr s' \<longrightarrow> \<not> dry opts \<longrightarrow>
      labels (fst (process_extrinsic api ig opts me sn x s))
        = nonces (fst (process_extrinsic api ig opts me sn x s)))"
  using process_extrinsic_cases[of ig x api opts me sn s]
  by (elim disjE exE conjE) auto

lemma process_extrinsic_step_wait:
  "(\<forall>s'. snd (process_extrinsic api ig opts me sn x s) = Inr s' \<longrightarrow>
      wait s' = (wait s \<or> trickle opts \<and>
                 (\<exists>ev \<in> set (fst (process_extrinsic api ig opts me sn x s)). is_submission ev))) \<and>
   (\<forall>ms. Sleep ms \<notin> set (fst (process_extrinsic api ig opts me sn x s)))"
  using process_extrinsic_cases[of ig x api opts me sn s]
  by (elim disjE exE conjE) auto

lemma process_extrinsic_step_sign:
  "\<forall>ev \<in> set (fst (process_extrinsic api ig opts me sn x s)).
     \<forall>c a n l. ev = SignAndSend c a n l \<longrightarrow> n = None \<and> a = me"
  using process_extrinsic_cases[of ig x api opts me sn s]
  by (elim disjE exE conjE) auto

text \<open>Loops in general: F runs f over a list, state by state, and stops at an error.\<close>

lemma upt_shift:
  "map (\<lambda>i. sn + i) [a..<a + k1] @ map (\<lambda>i. sn + i) [a + k1..<a + k1 + k2]
     = map (\<lambda>i. sn + i) [a..<a + (k1 + k2)]"
proof -
  have e: "[a..<(a + k1) + k2] = [a..<a + k1] @ [a + k1..<a + k1 + k2]"
    by (rule upt_add_eq_append) simp
  have "a + (k1 + k2) = (a + k1) + k2" by simp
  then show ?thesis by (simp only: e map_append)
qed

lemma loop_nonces:
  fixes F :: "'x list \<Rightarrow> seq_state \<Rightarrow> 'c outcome"
  assumes nil: "\<And>s. F [] s = ([], Inr s)"
    and cons: "\<And>x xs s. F (x # xs) s = and_then (f x s) (F xs)"
    and step: "\<And>x s. \<exists>k. nonces (fst (f x s)) = map (\<lambda>i. sn + i) [index s..<index s + k] \<and>
                 (\<forall>s'. snd (f x s) = Inr s' \<longrightarrow> index s' = index s + k \<and> k = c x)"
  shows "\<exists>k. nonces (fst (F xs s)) = map (\<lambda>i. sn + i) [index s..<index s + k] \<and>
           (\<forall>s'. snd (F xs s) = Inr s' \<longrightarrow> index s' = index s + k \<and> k = sum_list (map c xs))"
proof (induction xs arbitrary: s)
  case Nil
  have "nonces (fst (F [] s)) = map (\<lambda>i. sn + i) [index s..<index s + 0] \<and>
           (\<forall>s'. snd (F [] s) = Inr s' \<longrightarrow> index s' = index s + 0 \<and> 0 = sum_list (map c []))"
    by (simp add: nil)
  then show ?case by (rule exI)
next
  case (Cons x xs)
  obtain k1 where n1: "nonces (fst (f x s)) = map (\<lambda>i. sn + i) [index s..<index s + k1]"
    and f1: "\<And>s'. snd (f x s) = Inr s' \<Longrightarrow> index s' = index s + k1 \<and> k1 = c x"
    using step[of x s] by blast
  show ?case
  proof (cases "snd (f x s)")
    case (Inl e)
    then have fst_eq: "fst (F (x # xs) s) = fst (f x s)"
      and snd_eq: "snd (F (x # xs) s) = Inl e"
      by (simp_all add: cons fst_and_then snd_and_then)
    have "nonces (fst (F (x # xs) s)) = map (\<lambda>i. sn + i) [index s..<index s + k1] \<and>
           (\<forall>s'. snd (F (x # xs) s) = Inr s' \<longrightarrow>
              index s' = index s + k1 \<and> k1 = sum_list (map c (x # xs)))"
      unfolding fst_eq snd_eq using n1 by simp
    then show ?thesis by (rule exI)
  next
    case (Inr s1)
    from f1[OF Inr] have i1: "index s1 = index s + k1" and c1: "k1 = c x" by blast+
    from Cons.IH[of s1] obtain k2 where
      n2: "nonces (fst (F xs s1)) = map (\<lambda>i. sn + i) [index s1..<index s1 + k2]"
      and f2: "\<And>s'. snd (F xs s1) = Inr s' \<Longrightarrow> index s' = index s1 + k2 \<and>
            k2 = sum_list (map c xs)"
      by blast
    have fst_eq: "fst (F (x # xs) s) = fst (f x s) @ fst (F xs s1)"
      and snd_eq: "snd (F (x # xs) s) = snd (F xs s1)"
      using Inr by (simp_all add: cons fst_and_then snd_and_then)
    have a: "nonces (fst (f x s) @ fst (F xs s1))
        = map (\<lambda>i. sn + i) [index s..<index s + (k1 + k2)]"
      by (simp only: nonces_append n1 n2 i1 upt_shift)
    have b: "\<forall>s'. snd (F xs s1) = Inr s' \<longrightarrow>
        index s' = index s + (k1 + k2) \<and> k1 + k2 = sum_list (map c (x # xs))"
    proof (intro allI impI)
      fix s' assume "snd (F xs s1) = Inr s'"
      from f2[OF this] i1 c1
      show "index s' = index s + (k1 + k2) \<and> k1 + k2 = sum_list (map c (x # xs))"
        by simp
    qed
    have "nonces (fst (F (x # xs) s)) = map (\<lambda>i. sn + i) [index s..<index s + (k1 + k2)] \<and>
           (\<forall>s'. snd (F (x # xs) s) = Inr s' \<longrightarrow>
              index s' = index s + (k1 + k2) \<and> k1 + k2 = sum_list (map c (x # xs)))"
      unfolding fst_eq snd_eq using a b by (rule conjI)
    then show ?thesis by (rule exI)
  qed
qed

lemma loop_labels:
  fixes F :: "'x list \<Rightarrow> seq_state \<Rightarrow> 'c outcome"
  assumes nil: "\<And>s. F [] s = ([], Inr s)"
    and cons: "\<And>x xs s. F (x # xs) s = and_then (f x s) (F xs)"
    and step: "\<And>x s. prefix (labels (fst (f x s))) (nonces (fst (f x s))) \<and>
                 (\<forall>s'. snd (f x s) = Inr s' \<longrightarrow> labels (fst (f x s)) = nonces (fst (f x s)))"
  shows "prefix (labels (fst (F xs s))) (nonces (fst (F xs s))) \<and>
         (\<forall>s'. snd (F xs s) = Inr s' \<longrightarrow> labels (fst (F xs s)) = nonces (fst (F xs s)))"
proof (induction xs arbitrary: s)
  case Nil
  show ?case by (simp add: nil)
next
  case (Cons x xs)
  show ?case
  proof (cases "snd (f x s)")
    case (Inl e)
    then have "fst (F (x # xs) s) = fst (f x s)" and "snd (F (x # xs) s) = Inl e"
      by (simp_all add: cons fst_and_then snd_and_then)
    with step[of x s] show ?thesis by simp
  next
    case (Inr s1)
    have fst_eq: "fst (F (x # xs) s) = fst (f x s) @ fst (F xs s1)"
      and snd_eq: "snd (F (x # xs) s) = snd (F xs s1)"
      using Inr by (simp_all add: cons fst_and_then snd_and_then)
    from step[of x s] Inr have l1: "labels (fst (f x s)) = nonces (fst (f x s))" by blast
    from Cons.IH[of s1] have
      l2: "prefix (labels (fst (F xs s1))) (nonces (fst (F xs s1)))"
      and f2: "\<And>s'. snd (F xs s1) = Inr s' \<Longrightarrow> labels (fst (F xs s1)) = nonces (fst (F xs s1))"
      by blast+
    show ?thesis unfolding fst_eq snd_eq using l1 l2 f2 by simp
  qed
qed

lemma loop_wait:
  fixes F :: "'x list \<Rightarrow> seq_state \<Rightarrow> 'c outcome"
  assumes nil: "\<And>s. F [] s = ([], Inr s)"
    and cons: "\<And>x xs s. F (x # xs) s = and_then (f x s) (F xs)"
    and step: "\<And>x s s'. snd (f x s) = Inr s' \<Longrightarrow>
                 wait s' = (wait s \<or> T \<and> (\<exists>ev \<in> set (fst (f x s)). is_submission ev))"
  shows "snd (F xs s) = Inr s' \<Longrightarrow>
           wait s' = (wait s \<or> T \<and> (\<exists>ev \<in> set (fst (F xs s)). is_submission ev))"
proof (induction xs arbitrary: s)
  case Nil
  then show ?case by (simp add: nil)
next
  case (Cons x xs)
  from Cons.prems obtain s1 where r1: "snd (f x s) = Inr s1" and r2: "snd (F xs s1) = Inr s'"
    by (auto simp: cons snd_and_then split: sum.splits)
  have fst_eq: "fst (F (x # xs) s) = fst (f x s) @ fst (F xs s1)"
    using r1 by (simp add: cons fst_and_then)
  from step[OF r1] Cons.IH[OF r2] show ?case unfolding fst_eq by auto
qed

lemma process_block_unfold:
  "process_block api ig opts me sn b s =
     (case process_extrinsics api ig opts me sn (extrinsics b) s of
        (evs, Inl e) \<Rightarrow> (LogChecking (number b) # evs, Inl e)
      | (evs, Inr s') \<Rightarrow>
          (LogChecking (number b) # evs @ (if wait s' then [Sleep 6000] else []), Inr s'))"
  by (cases "process_extrinsics api ig opts me sn (extrinsics b) s";
      cases "snd (process_extrinsics api ig opts me sn (extrinsics b) s)")
     (auto simp: process_block_def)

lemma process_block_nonces_eq:
  "nonces (fst (process_block api ig opts me sn b s))
     = nonces (fst (process_extrinsics api ig opts me sn (extrinsics b) s))"
  "labels (fst (process_block api ig opts me sn b s))
     = labels (fst (process_extrinsics api ig opts me sn (extrinsics b) s))"
  "snd (process_block api ig opts me sn b s)
     = snd (process_extrinsics api ig opts me sn (extrinsics b) s)"
  by (auto simp: process_block_unfold split: prod.splits sum.splits)

lemma count_signed: "sum_list (map (\<lambda>x. if P x then 1 else 0) xs) = length (filter P xs)"
  by (induction xs) auto

lemma count_signed_concat:
  "sum_list (map (\<lambda>b. length (filter P (g b))) bs) = length (filter P (concat (map g bs)))"
  by (induction bs) auto

lemma process_extrinsics_nonces:
  "\<exists>k. nonces (fst (process_extrinsics api ig opts me sn xs s))
          = map (\<lambda>i. sn + i) [index s..<index s + k] \<and>
     (\<forall>s'. snd (process_extrinsics api ig opts me sn xs s) = Inr s' \<longrightarrow>
        index s' = index s + k \<and> k = length (filter (takes_signed_path ig) xs))"
proof -
  have step: "\<exists>k. nonces (fst (process_extrinsic api ig opts me sn x s))
               = map (\<lambda>i. sn + i) [index s..<index s + k] \<and>
          (\<forall>s'. snd (process_extrinsic api ig opts me sn x s) = Inr s' \<longrightarrow>
             index s' = index s + k \<and> k = (if takes_signed_path ig x then 1 else 0))" for x s
    by (rule process_extrinsic_step_nonces)
  from loop_nonces[of "process_extrinsics api ig opts me sn" "process_extrinsic api ig opts me sn"
      sn "\<lambda>x. if takes_signed_path ig x then 1 else 0" xs s, OF _ _ step]
  show ?thesis by (simp add: count_signed)
qed

lemma process_blocks_nonces:
  "\<exists>k. nonces (fst (process_blocks api ig opts me sn bs s))
          = map (\<lambda>i. sn + i) [index s..<index s + k] \<and>
     (\<forall>s'. snd (process_blocks api ig opts me sn bs s) = Inr s' \<longrightarrow>
        index s' = index s + k \<and>
        k = length (filter (takes_signed_path ig) (concat (map extrinsics bs))))"
proof -
  have step: "\<exists>k. nonces (fst (process_block api ig opts me sn b s))
               = map (\<lambda>i. sn + i) [index s..<index s + k] \<and>
          (\<forall>s'. snd (process_block api ig opts me sn b s) = Inr s' \<longrightarrow>
             index s' = index s + k \<and> k = length (filter (takes_signed_path ig) (extrinsics b)))"
    for b s
    unfolding process_block_nonces_eq by (rule process_extrinsics_nonces)
  from loop_nonces[of "process_blocks api ig opts me sn" "process_block api ig opts me sn"
      sn "\<lambda>b. length (filter (takes_signed_path ig) (extrinsics b))" bs s, OF _ _ step]
  show ?thesis by (simp add: count_signed_concat)
qed

lemma process_extrinsics_labels:
  "\<not> dry opts \<Longrightarrow>
   prefix (labels (fst (process_extrinsics api ig opts me sn xs s)))
          (nonces (fst (process_extrinsics api ig opts me sn xs s))) \<and>
   (\<forall>s'. snd (process_extrinsics api ig opts me sn xs s) = Inr s' \<longrightarrow>
      labels (fst (process_extrinsics api ig opts me sn xs s))
        = nonces (fst (process_extrinsics api ig opts me sn xs s)))"
proof -
  assume nd: "\<not> dry opts"
  have step: "prefix (labels (fst (process_extrinsic api ig opts me sn x s)))
          (nonces (fst (process_extrinsic api ig opts me sn x s))) \<and>
     (\<forall>s'. snd (process_extrinsic api ig opts me sn x s) = Inr s' \<longrightarrow>
       labels (fst (process_extrinsic api ig opts me sn x s))
         = nonces (fst (process_extrinsic api ig opts me sn x s)))" for x s
    using process_extrinsic_step_labels[of api ig opts me sn x s] nd by auto
  from loop_labels[of "process_extrinsics api ig opts me sn" "process_extrinsic api ig opts me sn"
      xs s, OF _ _ step]
  show ?thesis by simp
qed

lemma process_blocks_labels:
  "\<not> dry opts \<Longrightarrow>
   prefix (labels (fst (process_blocks api ig opts me sn bs s)))
          (nonces (fst (process_blocks api ig opts me sn bs s))) \<and>
   (\<forall>s'. snd (process_blocks api ig opts me sn bs s) = Inr s' \<longrightarrow>
      labels (fst (process_blocks api ig opts me sn bs s))
        = nonces (fst (process_blocks api ig opts me sn bs s)))"
proof -
  assume nd: "\<not> dry opts"
  have step: "prefix (labels (fst (process_block api ig opts me sn b s)))
          (nonces (fst (process_block api ig opts me sn b s))) \<and>
     (\<forall>s'. snd (process_block api ig opts me sn b s) = Inr s' \<longrightarrow>
       labels (fst (process_block api ig opts me sn b s))
         = nonces (fst (process_block api ig opts me sn b s)))" for b s
    unfolding process_block_nonces_eq using nd by (rule process_extrinsics_labels)
  from loop_labels[of "process_blocks api ig opts me sn" "process_block api ig opts me sn"
      bs s, OF _ _ step]
  show ?thesis by simp
qed

lemma process_extrinsics_wait:
  assumes "snd (process_extrinsics api ig opts me sn xs s) = Inr s'"
  shows "wait s' = (wait s \<or> trickle opts \<and>
      (\<exists>ev \<in> set (fst (process_extrinsics api ig opts me sn xs s)). is_submission ev))"
proof (rule loop_wait[of "process_extrinsics api ig opts me sn"
      "process_extrinsic api ig opts me sn", OF _ _ _ assms])
  show "process_extrinsics api ig opts me sn [] s = ([], Inr s)" for s by simp
  show "process_extrinsics api ig opts me sn (x # xs) s
      = and_then (process_extrinsic api ig opts me sn x s) (process_extrinsics api ig opts me sn xs)"
    for x xs s by simp
  show "wait s' = (wait s \<or> trickle opts \<and>
      (\<exists>ev \<in> set (fst (process_extrinsic api ig opts me sn x s)). is_submission ev))"
    if "snd (process_extrinsic api ig opts me sn x s) = Inr s'" for x s s'
    using that process_extrinsic_step_wait[of api ig opts me sn x s] by blast
qed

lemma process_extrinsics_no_sleep:
  "\<forall>ev \<in> set (fst (process_extrinsics api ig opts me sn xs s)). \<forall>ms. ev \<noteq> Sleep ms"
  by (rule process_extrinsics_all) (use process_extrinsic_step_wait in blast)

lemma process_block_wait:
  assumes "snd (process_block api ig opts me sn b s) = Inr s'"
  shows "wait s' = (wait s \<or> trickle opts \<and>
      (\<exists>ev \<in> set (fst (process_block api ig opts me sn b s)). is_submission ev))"
    and "(Sleep 6000 \<in> set (fst (process_block api ig opts me sn b s))) = wait s'"
    and "\<forall>ms. Sleep ms \<in> set (fst (process_block api ig opts me sn b s)) \<longrightarrow> ms = 6000"
proof -
  let ?pe = "process_extrinsics api ig opts me sn (extrinsics b) s"
  from assms have r: "snd ?pe = Inr s'" by (simp add: process_block_nonces_eq)
  then obtain evs where pe: "?pe = (evs, Inr s')" by (cases ?pe) auto
  have f: "fst (process_block api ig opts me sn b s)
      = LogChecking (number b) # fst ?pe @ (if wait s' then [Sleep 6000] else [])"
    by (simp add: process_block_unfold pe)
  from process_extrinsics_wait[OF r]
  show "wait s' = (wait s \<or> trickle opts \<and>
      (\<exists>ev \<in> set (fst (process_block api ig opts me sn b s)). is_submission ev))"
    unfolding f by auto
  from process_extrinsics_no_sleep[of api ig opts me sn "extrinsics b" s]
  show "(Sleep 6000 \<in> set (fst (process_block api ig opts me sn b s))) = wait s'"
    unfolding f by auto
  from process_extrinsics_no_sleep[of api ig opts me sn "extrinsics b" s]
  show "\<forall>ms. Sleep ms \<in> set (fst (process_block api ig opts me sn b s)) \<longrightarrow> ms = 6000"
    unfolding f by auto
qed

lemma process_blocks_wait:
  assumes "snd (process_blocks api ig opts me sn bs s) = Inr s'"
  shows "wait s' = (wait s \<or> trickle opts \<and>
      (\<exists>ev \<in> set (fst (process_blocks api ig opts me sn bs s)). is_submission ev))"
proof (rule loop_wait[of "process_blocks api ig opts me sn"
      "process_block api ig opts me sn", OF _ _ _ assms])
  show "process_blocks api ig opts me sn [] s = ([], Inr s)" for s by simp
  show "process_blocks api ig opts me sn (b # bs) s
      = and_then (process_block api ig opts me sn b s) (process_blocks api ig opts me sn bs)"
    for b bs s by simp
  show "wait s' = (wait s \<or> trickle opts \<and>
      (\<exists>ev \<in> set (fst (process_block api ig opts me sn b s)). is_submission ev))"
    if "snd (process_block api ig opts me sn b s) = Inr s'" for b s s'
    using that by (rule process_block_wait(1))
qed

text \<open>Concrete runs.\<close>

lemmas run_defs =
  migrate_def process_block_def process_extrinsic_def submit_signed_def submit_unsigned_def
  construct_proposal_def module_of_def txType_of_def api_tx_def thrown_def check_complete.simps
  carries_code_def at_index_def Let_def signed_transfer_def claim_attest_def test_options_def

lemma run_interleaved:
  "migrate test_api [] ''5Sudo'' interleaved test_options
     = ([LogSigner ''5Sudo'', LogChecking 1,
         LogMigrating 100 ''balances'' ''transfer'' ''5Alice'',
         SignAndSend
           (Call ''sudo'' ''sudoAs''
              [Val (JStr ''5Alice''),
               Nested (Call ''balances'' ''transfer'' [Val (JStr ''5Bob''), Val (JNum 5)])])
           ''5Sudo'' None 100,
         LogMigrating 101 ''balances'' ''transfer'' ''5Bob'',
         SignAndSend
           (Call ''sudo'' ''sudoAs''
              [Val (JStr ''5Bob''),
               Nested (Call ''balances'' ''transfer'' [Val (JStr ''5Carol''), Val (JNum 7)])])
           ''5Sudo'' None 101,
         Send (Call ''claims'' ''claimAttest''
                [Val (JStr ''0xeth''), Val (JStr ''0xsig''), Val (JStr ''Regular'')]),
         LogMigrating 102 ''balances'' ''transfer'' ''5Carol'',
         SignAndSend
           (Call ''sudo'' ''sudoAs''
              [Val (JStr ''5Carol''),
               Nested (Call ''balances'' ''transfer'' [Val (JStr ''5Dave''), Val (JNum 9)])])
           ''5Sudo'' None 102,
         Sleep 6000],
        Inr \<lparr>index = 3, wait = True, sent = 4\<rparr>)"
  by (simp add: run_defs interleaved_def)

lemma run_interleaved_dry:
  "migrate test_api [] ''5Sudo'' interleaved (test_options\<lparr>dry := True\<rparr>)
     = ([LogSigner ''5Sudo'', LogChecking 1,
         LogMigrating 100 ''balances'' ''transfer'' ''5Alice'',
         LogMigrating 101 ''balances'' ''transfer'' ''5Bob'',
         LogStubUnsigned,
         LogMigrating 102 ''balances'' ''transfer'' ''5Carol''],
        Inr \<lparr>index = 3, wait = False, sent = 0\<rparr>)"
  by (simp add: run_defs interleaved_def)

lemma migrate_cases:
  "(\<exists>e. migrate api ig me lines opts = ([], Inl e)) \<or>
   (\<exists>e. migrate api ig me lines opts = ([LogSigner me], Inl e)) \<or>
   migrate api ig me lines opts
     = (LogSigner me #
          fst (process_blocks api ig opts me (account_nonce api me) (sort_key number lines)
                 \<lparr>index = 0, wait = False, sent = 0\<rparr>),
        snd (process_blocks api ig opts me (account_nonce api me) (sort_key number lines)
                 \<lparr>index = 0, wait = False, sent = 0\<rparr>))"
  by (auto simp: migrate_def Let_def split: option.splits)

lemma labels_no_submission: "\<forall>ev \<in> set evs. \<not> is_submission ev \<Longrightarrow> labels evs = []"
  by (induction evs rule: labels.induct) auto

lemma labels_mem: "SignAndSend c a n l \<in> set evs \<Longrightarrow> l \<in> set (labels evs)"
  by (induction evs rule: labels.induct) auto

lemma prefix_of_run:
  assumes "prefix xs (map f [0..<k])"
  shows "xs = map f [0..<length xs]"
proof -
  from assms have le: "length xs \<le> k" by (auto dest: prefix_length_le)
  from assms have "xs = take (length xs) (map f [0..<k])"
    by (auto simp: prefix_def)
  also have "\<dots> = map f [0..<length xs]" using le by (simp add: take_map)
  finally show ?thesis .
qed

lemma process_blocks_labels_run:
  "labels (fst (process_blocks api ig opts me sn bs s))
     = take (length (labels (fst (process_blocks api ig opts me sn bs s))))
         (nonces (fst (process_blocks api ig opts me sn bs s)))"
proof (cases "dry opts")
  case True
  then have "labels (fst (process_blocks api ig opts me sn bs s)) = []"
    by (intro labels_no_submission process_blocks_dry)
  then show ?thesis by simp
next
  case False
  then have "prefix (labels (fst (process_blocks api ig opts me sn bs s)))
          (nonces (fst (process_blocks api ig opts me sn bs s)))"
    by (simp add: process_blocks_labels)
  then show ?thesis by (auto simp: prefix_def)
qed

text \<open>A proposal that is constructed has every nested descriptor resolved.\<close>

lemma eval_args_all_Inr: "eval_args rs = Inr vs \<Longrightarrow> r \<in> set rs \<Longrightarrow> \<exists>v. r = Inr v"
  by (induction rs arbitrary: vs rule: eval_args.induct) (auto split: sum.splits)

lemma api_tx_Inr: "api_tx api sec m as = Inr p \<Longrightarrow> \<exists>vs. eval_args as = Inr vs"
  by (auto simp: api_tx_def split: if_splits sum.splits)

lemma nested_Inr: "nested r = Inr v \<Longrightarrow> \<exists>c. r = Inr c"
  by (auto simp: nested_def split: sum.splits)

lemma api_tx_nested:
  "api_tx api sec m as = Inr p \<Longrightarrow> nested r \<in> set as \<Longrightarrow> \<exists>c. r = Inr c"
  by (blast dest: api_tx_Inr eval_args_all_Inr nested_Inr)

lemma construct_proposal_resolves:
  assumes "construct_proposal api md t as = Inr p" and "d \<in> set (nested_descriptors t as)"
  shows "\<exists>c. createCall api d = Inr c"
proof -
  consider (batch) "t = ''batch''" | (sudo) "t = ''sudo''" | (weight) "t = ''sudoUncheckedWeight''"
    | (multi) "t = ''asMulti''"
    | (other) "t \<noteq> ''batch''" "t \<noteq> ''sudo''" "t \<noteq> ''sudoUncheckedWeight''" "t \<noteq> ''asMulti''"
    by blast
  then show ?thesis
  proof cases
    case batch
    with assms obtain ds calls where ds: "as_array (at_index as 0) = Inr ds"
      and ev: "eval_args (map (createCall api) ds) = Inr calls" and d: "d \<in> set ds"
      by (auto simp: construct_proposal_def nested_descriptors_def split: sum.splits)
    from d have "createCall api d \<in> set (map (createCall api) ds)" by simp
    with ev show ?thesis by (rule eval_args_all_Inr)
  next
    case sudo
    with assms have "api_tx api md t [nested (createCall api d)] = Inr p"
      by (simp add: construct_proposal_def nested_descriptors_def)
    then show ?thesis by (rule api_tx_nested) simp
  next
    case weight
    with assms have "api_tx api md t [nested (createCall api d), Inr (Val (at_index as 1))] = Inr p"
      by (simp add: construct_proposal_def nested_descriptors_def)
    then show ?thesis by (rule api_tx_nested) simp
  next
    case multi
    with assms have "api_tx api md t
          [Inr (Val (at_index as 0)), Inr (Val (at_index as 1)), Inr (Val (at_index as 2)),
           nested (createCall api d)] = Inr p"
      by (simp add: construct_proposal_def nested_descriptors_def)
    then show ?thesis by (rule api_tx_nested) simp
  next
    case other
    with assms show ?thesis by (simp add: nested_descriptors_def)
  qed
qed

lemma createCall_remark:
  "createCall test_api remark_details = Inl (MethodMissing ''system'' ''remark'')"
  by (subst createCall.simps)
     (simp add: remark_details_def destructure_def test_registry_def thrown_def)


lemma run_nested_dry:
  "migrate test_api [] ''5Sudo'' nested_log (test_options\<lparr>dry := True\<rparr>)
     = ([LogSigner ''5Sudo'', LogChecking 1,
         LogMigrating 100 ''balances'' ''transfer'' ''5Alice'',
         LogMigrating 101 ''sudo'' ''sudo'' ''5Sudo'',
         LogStubUnsigned],
        Inr \<lparr>index = 2, wait = False, sent = 0\<rparr>)"
  by (simp add: run_defs nested_log_def sudo_extrinsic_def createCall_transfer nested_def)

lemma run_unresolvable_dry:
  "migrate test_api [] ''5Sudo'' unresolvable_log (test_options\<lparr>dry := True\<rparr>)
     = ([LogSigner ''5Sudo'', LogChecking 1], Inl (MethodMissing ''system'' ''remark''))"
  by (simp add: run_defs unresolvable_log_def sudo_extrinsic_def createCall_remark nested_def)


section \<open>The claims\<close>

text \<open>
  C1. With completeness checking on, a log whose sorted block numbers are 1, 2, 4 should
  fail with a gap error citing 3. The loop compares \<^verbatim>\<open>blocks[count-1].number\<close> with
  \<^verbatim>\<open>count\<close> while \<^verbatim>\<open>count < blocks.length\<close>, so the last block is never compared
  (lemma \<open>check_complete_iff\<close>): the run below has \<^verbatim>\<open>ensureComplete\<close> set, passes the
  check, visits the blocks 1, 2 and 4 and returns.
\<close>

theorem ensureComplete_accepts_gap:
  "ensureComplete test_options \<and>
   migrate test_api [] ''5Sudo'' [empty_block 1, empty_block 2, empty_block 4] test_options
     = ([LogSigner ''5Sudo'', LogChecking 1, LogChecking 2, LogChecking 4],
        Inr \<lparr>index = 0, wait = False, sent = 0\<rparr>)"
  by (simp add: migrate_def check_complete.simps empty_block_def test_options_def
      process_block_def)

text \<open>
  C2. Every signed transaction should be submitted with the nonce
  \<^verbatim>\<open>startingNonce + index\<close> passed to the submission call. The source reads the
  account's nonce, computes \<^verbatim>\<open>currentNonce\<close> and prints it, and then calls
  \<^verbatim>\<open>signAndSend(mySigner, callback)\<close> without it: in the run of one signed transfer with
  starting nonce 100, the call of \<^verbatim>\<open>signAndSend\<close> carries no nonce, and 100 is in the
  printed line and in the label of the callback only.
\<close>

theorem signAndSend_receives_no_nonce:
  "\<not> dry test_options \<and> account_nonce test_api ''5Sudo'' = 100 \<and>
   migrate test_api [] ''5Sudo'' one_block test_options
     = ([LogSigner ''5Sudo'', LogChecking 1,
         LogMigrating 100 ''balances'' ''transfer'' ''5Alice'',
         SignAndSend
           (Call ''sudo'' ''sudoAs''
              [Val (JStr ''5Alice''),
               Nested (Call ''balances'' ''transfer'' [Val (JStr ''5Bob''), Val (JNum 5)])])
           ''5Sudo'' None 100,
         Sleep 6000],
        Inr \<lparr>index = 1, wait = True, sent = 1\<rparr>) \<and>
   (\<forall>c a l. SignAndSend c a (Some 100) l
       \<notin> set (fst (migrate test_api [] ''5Sudo'' one_block test_options)))"
  by (simp add: run_defs one_block_def)

text \<open>
  The same in every run: every call of \<^verbatim>\<open>signAndSend\<close> is made for the migration
  signer with no nonce among its arguments, and the label of its status callback is one of
  the numbers \<^verbatim>\<open>startingNonce + index\<close> that the run prints.
\<close>

theorem signAndSend_passes_no_nonce:
  "\<forall>ev \<in> set (fst (migrate api ignore mySigner lines opts)).
     \<forall>c a n l. ev = SignAndSend c a n l \<longrightarrow>
       n = None \<and> a = mySigner \<and>
       l \<in> set (nonces (fst (migrate api ignore mySigner lines opts)))"
proof (intro ballI allI impI)
  fix ev c a n l
  assume ev: "ev \<in> set (fst (migrate api ignore mySigner lines opts))"
    and s: "ev = SignAndSend c a n l"
  let ?pb = "process_blocks api ignore opts mySigner (account_nonce api mySigner)
      (sort_key number lines) \<lparr>index = 0, wait = False, sent = 0\<rparr>"
  from migrate_cases[of api ignore mySigner lines opts] ev s
  have m: "migrate api ignore mySigner lines opts = (LogSigner mySigner # fst ?pb, snd ?pb)"
    and mem: "SignAndSend c a n l \<in> set (fst ?pb)"
    by auto
  have "\<forall>ev \<in> set (fst ?pb). \<forall>c a n l. ev = SignAndSend c a n l \<longrightarrow> n = None \<and> a = mySigner"
    by (rule process_blocks_all) (auto dest: process_extrinsic_step_sign[THEN bspec])
  with mem have 1: "n = None \<and> a = mySigner" by blast
  from mem have "l \<in> set (labels (fst ?pb))" by (rule labels_mem)
  then have "l \<in> set (take (length (labels (fst ?pb))) (nonces (fst ?pb)))"
    using process_blocks_labels_run[of api ignore opts mySigner "account_nonce api mySigner"
      "sort_key number lines" "\<lparr>index = 0, wait = False, sent = 0\<rparr>"] by simp
  then have "l \<in> set (nonces (fst ?pb))" by (rule in_set_takeD)
  with 1 show "n = None \<and> a = mySigner \<and>
       l \<in> set (nonces (fst (migrate api ignore mySigner lines opts)))"
    by (simp add: m)
qed

text \<open>
  At the run of one signed transfer.
\<close>

theorem signAndSend_passes_no_nonce_witness:
  "SignAndSend
     (Call ''sudo'' ''sudoAs''
        [Val (JStr ''5Alice''),
         Nested (Call ''balances'' ''transfer'' [Val (JStr ''5Bob''), Val (JNum 5)])])
     ''5Sudo'' None 100
     \<in> set (fst (migrate test_api [] ''5Sudo'' one_block test_options)) \<and>
   100 \<in> set (nonces (fst (migrate test_api [] ''5Sudo'' one_block test_options)))"
proof -
  let ?ev = "SignAndSend
     (Call ''sudo'' ''sudoAs''
        [Val (JStr ''5Alice''),
         Nested (Call ''balances'' ''transfer'' [Val (JStr ''5Bob''), Val (JNum 5)])])
     ''5Sudo'' None 100"
  have mem: "?ev \<in> set (fst (migrate test_api [] ''5Sudo'' one_block test_options))"
    by (simp add: run_defs one_block_def)
  from signAndSend_passes_no_nonce[of test_api "[]" "''5Sudo''" one_block test_options,
      THEN bspec, OF mem]
  have "100 \<in> set (nonces (fst (migrate test_api [] ''5Sudo'' one_block test_options)))"
    by blast
  with mem show ?thesis by simp
qed

text \<open>
  C3, as stated: with \<^verbatim>\<open>trickle\<close>, the delay after a block is taken if and only if a
  submission occurred in that same block. \<^verbatim>\<open>wait\<close> is declared before the outer loop
  and only ever set: in the run of a block with one signed transfer followed by a block
  with no transaction, the delay is taken after both blocks.
\<close>

theorem delay_after_idle_block_counterexample:
  "trickle test_options \<and> \<not> dry test_options \<and>
   migrate test_api [] ''5Sudo'' two_blocks test_options
     = ([LogSigner ''5Sudo'', LogChecking 1,
         LogMigrating 100 ''balances'' ''transfer'' ''5Alice'',
         SignAndSend
           (Call ''sudo'' ''sudoAs''
              [Val (JStr ''5Alice''),
               Nested (Call ''balances'' ''transfer'' [Val (JStr ''5Bob''), Val (JNum 5)])])
           ''5Sudo'' None 100,
         Sleep 6000, LogChecking 2, Sleep 6000],
        Inr \<lparr>index = 1, wait = True, sent = 1\<rparr>)"
  by (simp add: run_defs two_blocks_def)

text \<open>
  C3, as amended. \<^verbatim>\<open>migrate\<close> runs \<open>process_blocks\<close> on the sorted blocks from the
  state below. For every prefix \<open>bs @ [b]\<close> of the blocks that the loop completes, the
  events end with the delay after \<open>b\<close> if and only if \<^verbatim>\<open>trickle\<close> is set and a
  submission occurred in \<open>b\<close> or in a block before it.
\<close>

theorem delay_after_block:
  assumes "process_blocks api ignore opts mySigner sn (bs @ [b])
             \<lparr>index = 0, wait = False, sent = 0\<rparr> = (evs, Inr s')"
  shows "(last evs = Sleep 6000) = (trickle opts \<and> (\<exists>ev \<in> set evs. is_submission ev))"
proof -
  let ?init = "\<lparr>index = 0, wait = False, sent = 0\<rparr>"
  let ?p0 = "process_blocks api ignore opts mySigner sn bs ?init"
  from assms have a: "and_then ?p0 (process_blocks api ignore opts mySigner sn [b]) = (evs, Inr s')"
    by (simp add: process_blocks_append)
  then obtain s where r0: "snd ?p0 = Inr s"
    by (cases ?p0; cases "snd ?p0") auto
  let ?p1 = "process_block api ignore opts mySigner sn b s"
  let ?pe = "process_extrinsics api ignore opts mySigner sn (extrinsics b) s"
  from a r0 have e: "evs = fst ?p0 @ fst ?p1" and r1: "snd ?p1 = Inr s'"
    by (cases ?p0; cases ?p1; cases "snd ?p1"; auto)+
  from r1 have rpe: "snd ?pe = Inr s'" by (simp add: process_block_nonces_eq)
  then obtain body where pe: "?pe = (body, Inr s')" by (cases ?pe) auto
  have f: "fst ?p1 = LogChecking (number b) # body @ (if wait s' then [Sleep 6000] else [])"
    by (simp add: process_block_unfold pe)
  have nosleep: "\<forall>ev \<in> set body. \<forall>ms. ev \<noteq> Sleep ms"
    using process_extrinsics_no_sleep[of api ignore opts mySigner sn "extrinsics b" s]
    by (simp add: pe)
  have w0: "wait s = (trickle opts \<and> (\<exists>ev \<in> set (fst ?p0). is_submission ev))"
    using process_blocks_wait[OF r0] by simp
  have w1: "wait s' = (wait s \<or> trickle opts \<and> (\<exists>ev \<in> set (fst ?p1). is_submission ev))"
    using r1 by (rule process_block_wait(1))
  have w: "wait s' = (trickle opts \<and> (\<exists>ev \<in> set evs. is_submission ev))"
    unfolding w1 w0 e by auto
  have "(last evs = Sleep 6000) = wait s'"
  proof (cases "wait s'")
    case True
    then show ?thesis by (simp add: e f)
  next
    case False
    have "last (LogChecking (number b) # body) \<noteq> Sleep 6000"
      using nosleep by (cases body rule: rev_cases) auto
    with False show ?thesis by (simp add: e f)
  qed
  with w show ?thesis by simp
qed

text \<open>
  C3, at the two blocks of the run above: the delay after the second block follows the
  submission in the first.
\<close>

theorem delay_after_block_witness:
  "process_blocks test_api [] test_options ''5Sudo'' 100
     ([\<lparr>extrinsics = [signed_transfer ''5Alice'' ''5Bob'' 5], number = 1\<rparr>]
        @ [\<lparr>extrinsics = [], number = 2\<rparr>])
     \<lparr>index = 0, wait = False, sent = 0\<rparr>
     = ([LogChecking 1,
         LogMigrating 100 ''balances'' ''transfer'' ''5Alice'',
         SignAndSend
           (Call ''sudo'' ''sudoAs''
              [Val (JStr ''5Alice''),
               Nested (Call ''balances'' ''transfer'' [Val (JStr ''5Bob''), Val (JNum 5)])])
           ''5Sudo'' None 100,
         Sleep 6000, LogChecking 2, Sleep 6000],
        Inr \<lparr>index = 1, wait = True, sent = 1\<rparr>) \<and>
   trickle test_options \<and>
   is_submission
     (SignAndSend
        (Call ''sudo'' ''sudoAs''
           [Val (JStr ''5Alice''),
            Nested (Call ''balances'' ''transfer'' [Val (JStr ''5Bob''), Val (JNum 5)])])
        ''5Sudo'' None (100::nat)) \<and>
   last [LogChecking 1,
         LogMigrating 100 ''balances'' ''transfer'' ''5Alice'',
         SignAndSend
           (Call ''sudo'' ''sudoAs''
              [Val (JStr ''5Alice''),
               Nested (Call ''balances'' ''transfer'' [Val (JStr ''5Bob''), Val (JNum 5)])])
           ''5Sudo'' None 100,
         Sleep 6000, LogChecking 2, Sleep 6000] = Sleep 6000"
proof -
  let ?evs = "[LogChecking 1,
         LogMigrating 100 ''balances'' ''transfer'' ''5Alice'',
         SignAndSend
           (Call ''sudo'' ''sudoAs''
              [Val (JStr ''5Alice''),
               Nested (Call ''balances'' ''transfer'' [Val (JStr ''5Bob''), Val (JNum 5)])])
           ''5Sudo'' None 100,
         Sleep 6000, LogChecking 2, Sleep 6000]"
  have run: "process_blocks test_api [] test_options ''5Sudo'' 100
     ([\<lparr>extrinsics = [signed_transfer ''5Alice'' ''5Bob'' 5], number = 1\<rparr>]
        @ [\<lparr>extrinsics = [], number = 2\<rparr>])
     \<lparr>index = 0, wait = False, sent = 0\<rparr>
     = (?evs, Inr \<lparr>index = 1, wait = True, sent = 1\<rparr>)"
    by (simp add: run_defs)
  from delay_after_block[OF run]
  have "(last ?evs = Sleep 6000) = (trickle test_options \<and> (\<exists>ev \<in> set ?evs. is_submission ev))" .
  moreover have "trickle test_options" by (simp add: test_options_def)
  ultimately show ?thesis using run by simp
qed



text \<open>
  C5. With starting nonce 100 and three signed transactions, one unsigned transaction
  between the second and the third, the signed ones should receive the nonces 100, 101,
  102. The run computes and prints 100, 101, 102 for them and uses no number for the
  unsigned one, but none of its three calls of \<^verbatim>\<open>signAndSend\<close> carries a nonce: what
  nonce each transaction receives is left to the client.
\<close>

theorem interleaved_submitted_without_nonces:
  "account_nonce test_api ''5Sudo'' = 100 \<and> \<not> dry test_options \<and>
   migrate test_api [] ''5Sudo'' interleaved test_options
     = ([LogSigner ''5Sudo'', LogChecking 1,
         LogMigrating 100 ''balances'' ''transfer'' ''5Alice'',
         SignAndSend
           (Call ''sudo'' ''sudoAs''
              [Val (JStr ''5Alice''),
               Nested (Call ''balances'' ''transfer'' [Val (JStr ''5Bob''), Val (JNum 5)])])
           ''5Sudo'' None 100,
         LogMigrating 101 ''balances'' ''transfer'' ''5Bob'',
         SignAndSend
           (Call ''sudo'' ''sudoAs''
              [Val (JStr ''5Bob''),
               Nested (Call ''balances'' ''transfer'' [Val (JStr ''5Carol''), Val (JNum 7)])])
           ''5Sudo'' None 101,
         Send (Call ''claims'' ''claimAttest''
                [Val (JStr ''0xeth''), Val (JStr ''0xsig''), Val (JStr ''Regular'')]),
         LogMigrating 102 ''balances'' ''transfer'' ''5Carol'',
         SignAndSend
           (Call ''sudo'' ''sudoAs''
              [Val (JStr ''5Carol''),
               Nested (Call ''balances'' ''transfer'' [Val (JStr ''5Dave''), Val (JNum 9)])])
           ''5Sudo'' None 102,
         Sleep 6000],
        Inr \<lparr>index = 3, wait = True, sent = 4\<rparr>) \<and>
   (\<forall>c a n l. SignAndSend c a (Some n) l
       \<notin> set (fst (migrate test_api [] ''5Sudo'' interleaved test_options)))"
proof -
  have "\<not> dry test_options" by (simp add: test_options_def)
  then show ?thesis by (simp add: run_interleaved)
qed

text \<open>
  The counter of C5, in every run: the numbers \<^verbatim>\<open>currentNonce\<close> that a run computes
  for its signed transactions, in order, are \<open>S, S + 1, \<dots>\<close> for the starting nonce \<open>S\<close>,
  and so are the labels of the status callbacks of its signed submissions; when the run
  completes, \<^verbatim>\<open>index\<close> is the number of extrinsics of the log that took the signed
  path, so the unsigned and the skipped ones add nothing.
\<close>

theorem nonce_assignment:
  "nonces (fst (migrate api ignore mySigner lines opts))
     = map (\<lambda>i. account_nonce api mySigner + i)
         [0..<length (nonces (fst (migrate api ignore mySigner lines opts)))] \<and>
   labels (fst (migrate api ignore mySigner lines opts))
     = map (\<lambda>i. account_nonce api mySigner + i)
         [0..<length (labels (fst (migrate api ignore mySigner lines opts)))] \<and>
   (\<forall>s'. snd (migrate api ignore mySigner lines opts) = Inr s' \<longrightarrow>
      index s'
        = length (filter (takes_signed_path ignore)
            (concat (map extrinsics (sort_key number lines)))) \<and>
      length (nonces (fst (migrate api ignore mySigner lines opts))) = index s')"
proof -
  let ?pb = "process_blocks api ignore opts mySigner (account_nonce api mySigner)
      (sort_key number lines) \<lparr>index = 0, wait = False, sent = 0\<rparr>"
  let ?f = "\<lambda>i. account_nonce api mySigner + i"
  from process_blocks_nonces[of api ignore opts mySigner "account_nonce api mySigner"
      "sort_key number lines" "\<lparr>index = 0, wait = False, sent = 0\<rparr>"]
  obtain k where n: "nonces (fst ?pb) = map ?f [0..<k]"
    and i: "\<And>s'. snd ?pb = Inr s' \<Longrightarrow> index s' = k \<and>
        k = length (filter (takes_signed_path ignore) (concat (map extrinsics (sort_key number lines))))"
    by auto
  from n have len: "length (nonces (fst ?pb)) = k" by simp
  have "prefix (labels (fst ?pb)) (map ?f [0..<k])"
    using process_blocks_labels_run[of api ignore opts mySigner "account_nonce api mySigner"
      "sort_key number lines" "\<lparr>index = 0, wait = False, sent = 0\<rparr>"]
    unfolding n by (metis take_is_prefix)
  then have l: "labels (fst ?pb) = map ?f [0..<length (labels (fst ?pb))]"
    by (rule prefix_of_run)
  from migrate_cases[of api ignore mySigner lines opts]
  consider (a) e where "migrate api ignore mySigner lines opts = ([], Inl e)"
    | (b) e where "migrate api ignore mySigner lines opts = ([LogSigner mySigner], Inl e)"
    | (c) "migrate api ignore mySigner lines opts = (LogSigner mySigner # fst ?pb, snd ?pb)"
    by blast
  then show ?thesis
  proof cases
    case a
    then show ?thesis by simp
  next
    case b
    then show ?thesis by simp
  next
    case c
    have c1: "nonces (fst (migrate api ignore mySigner lines opts)) = nonces (fst ?pb)"
      and c2: "labels (fst (migrate api ignore mySigner lines opts)) = labels (fst ?pb)"
      and c3: "snd (migrate api ignore mySigner lines opts) = snd ?pb"
      by (simp_all add: c)
    show ?thesis unfolding c1 c2 c3 len
      using n l i by blast
  qed
qed

text \<open>
  At the run with starting nonce 100 over three signed transfers with a
  \<^verbatim>\<open>claimAttest\<close> between the second and the third: 100, 101, 102.
\<close>

theorem nonce_assignment_witness:
  "snd (migrate test_api [] ''5Sudo'' interleaved test_options)
     = Inr \<lparr>index = 3, wait = True, sent = 4\<rparr> \<and>
   length (filter (takes_signed_path [])
     (concat (map extrinsics (sort_key number interleaved)))) = 3 \<and>
   nonces (fst (migrate test_api [] ''5Sudo'' interleaved test_options)) = [100, 101, 102] \<and>
   labels (fst (migrate test_api [] ''5Sudo'' interleaved test_options)) = [100, 101, 102]"
proof -
  let ?m = "migrate test_api [] ''5Sudo'' interleaved test_options"
  have r: "snd ?m = Inr \<lparr>index = 3, wait = True, sent = 4\<rparr>"
    by (simp add: run_interleaved)
  have n: "length (nonces (fst ?m)) = 3" and l: "length (labels (fst ?m)) = 3"
    by (simp_all add: run_interleaved)
  have u: "map (\<lambda>i. account_nonce test_api ''5Sudo'' + i) [0..<3] = [100, 101, 102]"
    by (simp add: upt_rec)
  from nonce_assignment[of test_api "[]" "''5Sudo''" interleaved test_options]
  have "nonces (fst ?m) = map (\<lambda>i. account_nonce test_api ''5Sudo'' + i) [0..<3]"
    and "labels (fst ?m) = map (\<lambda>i. account_nonce test_api ''5Sudo'' + i) [0..<3]"
    and "length (filter (takes_signed_path [])
           (concat (map extrinsics (sort_key number interleaved)))) = 3"
    unfolding n l using r by auto
  with r u show ?thesis by simp
qed




text \<open>
  C7. A descriptor whose method name is none of the \<^verbatim>\<open>case\<close> labels resolves to the
  error of the \<^verbatim>\<open>default\<close> branch, whatever the client's constructors would do; and
  whenever the resolver returns a call, the method name of the descriptor is one of the
  labels.
\<close>

theorem createCall_unknown_method:
  "(destructure details = Inr (a, callIndex) \<longrightarrow>
      findMetaCall api callIndex = Inr (sec, m) \<longrightarrow> m \<notin> set supported_methods \<longrightarrow>
      createCall api details = Inl (MethodMissing sec m)) \<and>
   (createCall api details = Inr c \<longrightarrow>
      (\<exists>a callIndex sec m.
         destructure details = Inr (a, callIndex) \<and>
         findMetaCall api callIndex = Inr (sec, m) \<and> m \<in> set supported_methods))"
proof (intro conjI impI)
  assume "destructure details = Inr (a, callIndex)"
    and "findMetaCall api callIndex = Inr (sec, m)" and "m \<notin> set supported_methods"
  then show "createCall api details = Inl (MethodMissing sec m)"
    by (subst createCall.simps) (simp add: thrown_def supported_methods_def)
next
  assume ok: "createCall api details = Inr c"
  then obtain a callIndex where d: "destructure details = Inr (a, callIndex)"
    by (subst (asm) createCall.simps) (auto split: sum.splits)
  with ok obtain sec m where f: "findMetaCall api callIndex = Inr (sec, m)"
    by (subst (asm) createCall.simps) (auto simp: thrown_def split: sum.splits)
  have "m \<in> set supported_methods"
  proof (rule ccontr)
    assume "m \<notin> set supported_methods"
    with d f have "createCall api details = Inl (MethodMissing sec m)"
      by (subst createCall.simps) (simp add: thrown_def supported_methods_def)
    with ok show False by simp
  qed
  with d f show "\<exists>a callIndex sec m.
         destructure details = Inr (a, callIndex) \<and>
         findMetaCall api callIndex = Inr (sec, m) \<and> m \<in> set supported_methods"
    by blast
qed

text \<open>
  C7, at a descriptor of \<^verbatim>\<open>system.remark\<close>.
\<close>

theorem createCall_unknown_method_witness:
  "destructure remark_details
     = Inr (JObj [(''_remark'', JStr ''0x00'')], JStr ''0x0001'') \<and>
   findMetaCall test_api (JStr ''0x0001'') = Inr (''system'', ''remark'') \<and>
   ''remark'' \<notin> set supported_methods \<and>
   createCall test_api remark_details = Inl (MethodMissing ''system'' ''remark'')"
proof -
  have h1: "destructure remark_details
     = Inr (JObj [(''_remark'', JStr ''0x00'')], JStr ''0x0001'')"
    by (simp add: remark_details_def destructure_def)
  have h2: "findMetaCall test_api (JStr ''0x0001'') = Inr (''system'', ''remark'')"
    by (simp add: test_registry_def)
  have h3: "''remark'' \<notin> set supported_methods"
    by (simp add: supported_methods_def)
  from createCall_unknown_method[THEN conjunct1, rule_format, OF h1 h2 h3] h1 h2 h3
  show ?thesis by simp
qed

text \<open>
  C8. A batch descriptor whose nested descriptors resolve to the calls \<open>calls\<close>, in this
  order, resolves to the client's batch constructor applied once, to the list \<open>calls\<close>.
\<close>

theorem createCall_batch_order:
  assumes "destructure details = Inr (a, callIndex)"
    and "findMetaCall api callIndex = Inr (sec, ''batch'')"
    and "read_prop a ''calls'' = Inr (JArr ds)"
    and "map (createCall api) ds = map Inr calls"
  shows "createCall api details = api_tx api sec ''batch'' [Inr (NestedList calls)]"
  using assms
  by (subst createCall.simps) (simp add: thrown_def eval_args_Inr)

text \<open>
  C8, at a batch of three descriptors, the second a sudo-wrapped transfer.
\<close>

theorem createCall_batch_order_witness:
  "createCall test_api (batch_details three_calls)
     = Inr (Call ''utility'' ''batch''
         [NestedList
            [Call ''balances'' ''transfer'' [Val (JStr ''bob''), Val (JNum 5)],
             Call ''sudo'' ''sudo''
               [Nested (Call ''balances'' ''transfer'' [Val (JStr ''carol''), Val (JNum 7)])],
             Call ''balances'' ''transfer'' [Val (JStr ''dave''), Val (JNum 9)]]])"
proof -
  let ?calls = "[Call ''balances'' ''transfer'' [Val (JStr ''bob''), Val (JNum 5)],
             Call ''sudo'' ''sudo''
               [Nested (Call ''balances'' ''transfer'' [Val (JStr ''carol''), Val (JNum 7)])],
             Call ''balances'' ''transfer'' [Val (JStr ''dave''), Val (JNum 9)]]"
  have h1: "destructure (batch_details three_calls)
      = Inr (JObj [(''calls'', JArr three_calls)], JStr ''0x1800'')"
    by (simp add: batch_details_def destructure_def)
  have h2: "findMetaCall test_api (JStr ''0x1800'') = Inr (''utility'', ''batch'')"
    by (simp add: test_registry_def)
  have h3: "read_prop (JObj [(''calls'', JArr three_calls)]) ''calls'' = Inr (JArr three_calls)"
    by simp
  have h4: "map (createCall test_api) three_calls = map Inr ?calls"
    by (simp add: three_calls_def createCall_transfer createCall_sudo_transfer)
  have "api_tx test_api ''utility'' ''batch'' [Inr (NestedList ?calls)]
      = Inr (Call ''utility'' ''batch'' [NestedList ?calls])"
    by (simp add: api_tx_def thrown_def)
  with createCall_batch_order[OF h1 h2 h3 h4] show ?thesis by simp
qed

text \<open>
  C9. In a dry run no event is a submission, and a dry run that completes has constructed
  the proposal of every extrinsic on the signed path and has resolved, with
  \<^verbatim>\<open>createCall\<close>, every descriptor nested in it: had one resolution failed, the run
  would have ended with its error.
\<close>

theorem dry_run_submits_nothing:
  assumes "dry opts"
  shows "(\<forall>ev \<in> set (fst (migrate api ignore mySigner lines opts)). \<not> is_submission ev) \<and>
         (\<forall>s'. snd (migrate api ignore mySigner lines opts) = Inr s' \<longrightarrow>
            (\<forall>b \<in> set lines. \<forall>x \<in> set (extrinsics b). takes_signed_path ignore x \<longrightarrow>
               (\<exists>sg p. signature x = Some sg \<and>
                  construct_proposal api (module_of (method x)) (txType_of (method x)) (args x)
                    = Inr p) \<and>
               (\<forall>d \<in> set (nested_descriptors (txType_of (method x)) (args x)).
                  \<exists>c. createCall api d = Inr c)))"
proof (intro conjI allI impI ballI)
  fix ev assume "ev \<in> set (fst (migrate api ignore mySigner lines opts))"
  then have "ev = LogSigner mySigner \<or>
      ev \<in> set (fst (process_blocks api ignore opts mySigner (account_nonce api mySigner)
                  (sort_key number lines) \<lparr>index = 0, wait = False, sent = 0\<rparr>))"
    by (auto simp: migrate_def Let_def split: option.splits if_splits)
  with assms show "\<not> is_submission ev"
    by (auto dest: process_blocks_dry)
next
  fix s' b x
  assume ok: "snd (migrate api ignore mySigner lines opts) = Inr s'"
    and b: "b \<in> set lines" and x: "x \<in> set (extrinsics b)" and p: "takes_signed_path ignore x"
  from ok have "snd (process_blocks api ignore opts mySigner (account_nonce api mySigner)
                  (sort_key number lines) \<lparr>index = 0, wait = False, sent = 0\<rparr>) = Inr s'"
    by (auto simp: migrate_def Let_def split: option.splits if_splits)
  moreover from b have "b \<in> set (sort_key number lines)" by simp
  ultimately have r: "\<exists>sg p. signature x = Some sg \<and>
      construct_proposal api (module_of (method x)) (txType_of (method x)) (args x) = Inr p"
    using x p by (rule process_blocks_resolves)
  then show "\<exists>sg p. signature x = Some sg \<and>
      construct_proposal api (module_of (method x)) (txType_of (method x)) (args x) = Inr p" .
  fix d assume "d \<in> set (nested_descriptors (txType_of (method x)) (args x))"
  with r show "\<exists>c. createCall api d = Inr c"
    by (blast dest: construct_proposal_resolves)
qed

text \<open>
  C9, at the dry run over a signed transfer, a \<^verbatim>\<open>sudo.sudo\<close> extrinsic that wraps a
  transfer and a \<^verbatim>\<open>claimAttest\<close>; and the dry run over a \<^verbatim>\<open>sudo.sudo\<close> extrinsic
  that wraps a \<^verbatim>\<open>system.remark\<close>, which ends with the resolver's error.
\<close>

theorem dry_run_submits_nothing_witness:
  "dry (test_options\<lparr>dry := True\<rparr>) \<and>
   snd (migrate test_api [] ''5Sudo'' nested_log (test_options\<lparr>dry := True\<rparr>))
     = Inr \<lparr>index = 2, wait = False, sent = 0\<rparr> \<and>
   filter is_submission
     (fst (migrate test_api [] ''5Sudo'' nested_log (test_options\<lparr>dry := True\<rparr>))) = [] \<and>
   takes_signed_path [] (sudo_extrinsic (transfer_details ''5Carol'' 7)) \<and>
   nested_descriptors (txType_of (method (sudo_extrinsic (transfer_details ''5Carol'' 7))))
     (args (sudo_extrinsic (transfer_details ''5Carol'' 7))) = [transfer_details ''5Carol'' 7] \<and>
   (\<exists>c. createCall test_api (transfer_details ''5Carol'' 7) = Inr c) \<and>
   migrate test_api [] ''5Sudo'' unresolvable_log (test_options\<lparr>dry := True\<rparr>)
     = ([LogSigner ''5Sudo'', LogChecking 1], Inl (MethodMissing ''system'' ''remark''))"
proof -
  let ?o = "test_options\<lparr>dry := True\<rparr>"
  let ?x = "sudo_extrinsic (transfer_details ''5Carol'' 7)"
  have d: "dry ?o" by simp
  have r: "snd (migrate test_api [] ''5Sudo'' nested_log ?o)
     = Inr \<lparr>index = 2, wait = False, sent = 0\<rparr>"
    by (simp add: run_nested_dry)
  have b: "\<lparr>extrinsics =
         [signed_transfer ''5Alice'' ''5Bob'' 5, ?x, claim_attest],
       number = 1\<rparr> \<in> set nested_log"
    by (simp add: nested_log_def)
  have x: "?x \<in> set (extrinsics \<lparr>extrinsics =
         [signed_transfer ''5Alice'' ''5Bob'' 5, ?x, claim_attest],
       number = 1\<rparr>)"
    by simp
  have p: "takes_signed_path [] ?x"
    by (simp add: takes_signed_path_def sudo_extrinsic_def txType_of_def)
  have n: "nested_descriptors (txType_of (method ?x)) (args ?x) = [transfer_details ''5Carol'' 7]"
    by (simp add: nested_descriptors_def sudo_extrinsic_def txType_of_def at_index_def)
  note t = dry_run_submits_nothing[OF d, of test_api "[]" "''5Sudo''" nested_log]
  from t have "\<forall>ev \<in> set (fst (migrate test_api [] ''5Sudo'' nested_log ?o)). \<not> is_submission ev"
    by (rule conjunct1)
  then have f: "filter is_submission (fst (migrate test_api [] ''5Sudo'' nested_log ?o)) = []"
    by (simp add: filter_empty_conv)
  from t[THEN conjunct2, rule_format, OF r b x p]
  have "\<forall>d \<in> set (nested_descriptors (txType_of (method ?x)) (args ?x)).
          \<exists>c. createCall test_api d = Inr c"
    by (rule conjunct2)
  then have c: "\<exists>c. createCall test_api (transfer_details ''5Carol'' 7) = Inr c"
    unfolding n by simp
  from d r f p n c run_unresolvable_dry show ?thesis by blast
qed

text \<open>
  C10. The recursion of \<^verbatim>\<open>createCall\<close> is well-founded on every descriptor: each
  recursive call is on a value nested in the descriptor (\<open>destructure_size\<close>,
  \<open>batch_size\<close>), and the values parsed from JSON are finite trees.
\<close>

theorem createCall_terminates: "createCall_dom (api, details)"
proof -
  have "All createCall_dom"
  proof (relation "measure (\<lambda>(api, details). size details)", goal_cases)
    case 1 show ?case by simp
  next
    case 2 then show ?case by (auto dest: destructure_size)
  next
    case 3 then show ?case by (auto dest: destructure_size)
  next
    case 4 then show ?case by (auto dest: batch_size)
  qed
  then show ?thesis by blast
qed

end
